theory Spec2Isabelle
  imports Main
begin

section \<open>The dependency scanner (find-imports.ts)\<close>

text \<open>
  Paths are strings. A JavaScript \<open>Set<string>\<close> is a duplicate-free list in insertion
  order and a \<open>Map<string, Set<string>>\<close> (the class \<open>PathsMap\<close>) an association list in
  insertion order, since the scanner iterates over both.
\<close>

type_synonym path = string

type_synonym PathsMap = "(path \<times> path list) list"

subsection \<open>Sets and maps of the runtime\<close>

definition Set_add :: "'a list \<Rightarrow> 'a \<Rightarrow> 'a list" where
  "Set_add s x = (if x \<in> set s then s else s @ [x])"

definition new_Set :: "'a list \<Rightarrow> 'a list" where
  "new_Set xs = foldl Set_add [] xs"

definition isDisjointFrom :: "'a list \<Rightarrow> 'a list \<Rightarrow> bool" where
  "isDisjointFrom a b = (\<forall>x \<in> set a. x \<notin> set b)"

definition intersection :: "'a list \<Rightarrow> 'a list \<Rightarrow> 'a list" where
  "intersection a b =
     (if length a \<le> length b then filter (\<lambda>x. x \<in> set b) a
      else filter (\<lambda>x. x \<in> set a) b)"

definition union :: "'a list \<Rightarrow> 'a list \<Rightarrow> 'a list" where
  "union a b = foldl Set_add a b"

fun Map_get :: "PathsMap \<Rightarrow> path \<Rightarrow> path list option" where
  "Map_get [] k = None"
| "Map_get ((k', v) # m) k = (if k' = k then Some v else Map_get m k)"

fun Map_set :: "PathsMap \<Rightarrow> path \<Rightarrow> path list \<Rightarrow> PathsMap" where
  "Map_set [] k v = [(k, v)]"
| "Map_set ((k', v') # m) k v = (if k' = k then (k, v) # m else (k', v') # Map_set m k v)"

definition new_PathsMap :: "(path \<times> path list) list \<Rightarrow> PathsMap" where
  "new_PathsMap entries = foldl (\<lambda>m (k, v). Map_set m k v) [] entries"

text \<open>\<open>map.values().flatMap((value) => value)\<close>: every child of every key, in order.\<close>

definition flatValues :: "PathsMap \<Rightarrow> path list" where
  "flatValues m = concat (map snd m)"

subsection \<open>The file tree and the collaborators\<close>

text \<open>
  What \<open>transpiler.scanImports\<close> does with the bytes of a file: it returns the import
  specifiers, throws a \<open>BuildMessage\<close> of level \<open>error\<close> (the file is then skipped), or
  throws something else (rethrown). The tsconfig lookup only changes what the transpiler
  yields, so it is part of this outcome.
\<close>

datatype scanned = Imports "string list" | BuildMessageError | OtherError

text \<open>The result of \<open>Bun.build\<close>.\<close>

record BuildOutput =
  success :: bool
  outputs :: "path list"
  logs :: "string list"

text \<open>
  The world outside the program at one moment. \<open>files\<close> is the finite list of the files
  that exist on disk, each with what scanning it yields. \<open>resolveSync spec parent\<close> is
  \<open>Bun.resolveSync(import.meta.resolve(spec, parent), parent)\<close>, \<open>None\<close> when it throws.
  \<open>bunBuild entrypoints\<close> is what \<open>Bun.build\<close> resolves to at this moment.
  \<open>rejectTime parentPath\<close> is the time that the awaits of the \<open>findImportsOnce\<close> callback
  for \<open>parentPath\<close> take (\<open>exists\<close>, \<open>findTSConfig\<close>, \<open>bytes\<close>), which is the time at
  which that callback rejects when it does: the file system decides it, not the program.
\<close>

record world =
  files :: "(path \<times> scanned) list"
  resolveSync :: "string \<Rightarrow> path \<Rightarrow> path option"
  bunBuild :: "path list \<Rightarrow> BuildOutput"
  rejectTime :: "path \<Rightarrow> nat"

text \<open>A \<open>Bun.Glob\<close> is the predicate \<open>glob.match\<close>.\<close>

record ScanConfig =
  excludeGlobs :: "(path \<Rightarrow> bool) list"

datatype scan_error =
    CyclicImport path "path list"
  | ResolveError string path
  | ScanImportsError path

definition file_exists :: "world \<Rightarrow> path \<Rightarrow> bool" where
  "file_exists d p = (map_of (files d) p \<noteq> None)"

definition endsWith :: "string \<Rightarrow> string \<Rightarrow> bool" where
  "endsWith p sfx = (length sfx \<le> length p \<and> drop (length p - length sfx) p = sfx)"

text \<open>\<open>extRegex = /\.(js|jsx|ts|tsx)$/\<close>\<close>

definition extRegex :: "path \<Rightarrow> bool" where
  "extRegex p = (endsWith p ''.js'' \<or> endsWith p ''.jsx'' \<or> endsWith p ''.ts'' \<or> endsWith p ''.tsx'')"

subsection \<open>findImportsOnce\<close>

text \<open>
  The inner \<open>Promise.all\<close>: every specifier is resolved; a resolved path that matches an
  exclusion glob or does not exist yields \<open>undefined\<close> and is filtered out; a specifier
  that does not resolve throws. \<open>Bun.resolveSync\<close> throws before the inner callback awaits
  anything, so of several specifiers that do not resolve the first in list order is the
  one whose rejection \<open>Promise.all\<close> sees first.
\<close>

fun resolveImports :: "world \<Rightarrow> ScanConfig \<Rightarrow> path \<Rightarrow> string list \<Rightarrow> scan_error + path list" where
  "resolveImports d cfg parentPath [] = Inr []"
| "resolveImports d cfg parentPath (importPath # rest) =
     (case resolveSync d importPath parentPath of
        None \<Rightarrow> Inl (ResolveError importPath parentPath)
      | Some resolvedImportPath \<Rightarrow>
          (case resolveImports d cfg parentPath rest of
             Inl e \<Rightarrow> Inl e
           | Inr resolved \<Rightarrow>
               if list_all (\<lambda>glob. \<not> glob resolvedImportPath) (excludeGlobs cfg)
                  \<and> file_exists d resolvedImportPath
               then Inr (resolvedImportPath # resolved)
               else Inr resolved))"

text \<open>The outer callback for one parent path: \<open>None\<close> is the \<open>undefined\<close> of a skipped file.\<close>

definition scanParent :: "world \<Rightarrow> ScanConfig \<Rightarrow> path \<Rightarrow> scan_error + (path \<times> path list) option" where
  "scanParent d cfg parentPath =
     (if \<not> extRegex parentPath then Inr None
      else case map_of (files d) parentPath of
        None \<Rightarrow> Inr None
      | Some BuildMessageError \<Rightarrow> Inr None
      | Some OtherError \<Rightarrow> Inl (ScanImportsError parentPath)
      | Some (Imports imports) \<Rightarrow>
          (case resolveImports d cfg parentPath imports of
             Inl e \<Rightarrow> Inl e
           | Inr resolvedImports \<Rightarrow> Inr (Some (parentPath, new_Set resolvedImports))))"

text \<open>
  The outer \<open>Promise.all\<close>. Every outer callback awaits the file system before it can
  throw, so when several of them reject, \<open>Promise.all\<close> rejects with the error of the one
  that rejects first in time, the earlier in the list among those that reject at the same
  time. \<open>rejections\<close> are the callbacks that reject, each with its error, and \<open>fulfilled\<close>
  the values of the others that are not \<open>undefined\<close>.
\<close>

fun rejections :: "world \<Rightarrow> ScanConfig \<Rightarrow> path list \<Rightarrow> (path \<times> scan_error) list" where
  "rejections d cfg [] = []"
| "rejections d cfg (parentPath # rest) =
     (case scanParent d cfg parentPath of
        Inl e \<Rightarrow> (parentPath, e) # rejections d cfg rest
      | Inr r \<Rightarrow> rejections d cfg rest)"

fun fulfilled :: "world \<Rightarrow> ScanConfig \<Rightarrow> path list \<Rightarrow> (path \<times> path list) list" where
  "fulfilled d cfg [] = []"
| "fulfilled d cfg (parentPath # rest) =
     (case scanParent d cfg parentPath of
        Inl e \<Rightarrow> fulfilled d cfg rest
      | Inr None \<Rightarrow> fulfilled d cfg rest
      | Inr (Some kv) \<Rightarrow> kv # fulfilled d cfg rest)"

fun firstRejection :: "world \<Rightarrow> path \<times> scan_error \<Rightarrow> (path \<times> scan_error) list \<Rightarrow> path \<times> scan_error" where
  "firstRejection d r [] = r"
| "firstRejection d r (r' # rest) =
     (if rejectTime d (fst r') < rejectTime d (fst r) then firstRejection d r' rest
      else firstRejection d r rest)"

definition childFiles :: "world \<Rightarrow> ScanConfig \<Rightarrow> path list \<Rightarrow> scan_error + (path \<times> path list) list" where
  "childFiles d cfg filePaths =
     (case rejections d cfg filePaths of
        [] \<Rightarrow> Inr (fulfilled d cfg filePaths)
      | r # rs \<Rightarrow> Inl (snd (firstRejection d r rs)))"

definition findImportsOnce :: "world \<Rightarrow> ScanConfig \<Rightarrow> path list \<Rightarrow> scan_error + PathsMap" where
  "findImportsOnce d cfg filePaths =
     (case childFiles d cfg filePaths of
        Inl e \<Rightarrow> Inl e
      | Inr kvs \<Rightarrow> Inr (new_PathsMap kvs))"

subsection \<open>mergePaths\<close>

fun mergePaths :: "PathsMap \<Rightarrow> PathsMap \<Rightarrow> scan_error + PathsMap" where
  "mergePaths allPaths [] = Inr allPaths"
| "mergePaths allPaths ((parentPath, childPaths) # rest) =
     (case Map_get allPaths parentPath of
        None \<Rightarrow> mergePaths (Map_set allPaths parentPath childPaths) rest
      | Some allChildPaths \<Rightarrow>
          if \<not> isDisjointFrom allChildPaths childPaths
          then Inl (CyclicImport parentPath (intersection allChildPaths childPaths))
          else mergePaths (Map_set allPaths parentPath (union allChildPaths childPaths)) rest)"

subsection \<open>findImports\<close>

text \<open>The import edges the files can ever yield, and the edges a map records.\<close>

definition children :: "world \<Rightarrow> ScanConfig \<Rightarrow> path \<Rightarrow> path list" where
  "children d cfg p = (case scanParent d cfg p of Inr (Some (_, cs)) \<Rightarrow> cs | _ \<Rightarrow> [])"

definition edges :: "world \<Rightarrow> ScanConfig \<Rightarrow> (path \<times> path) set" where
  "edges d cfg = {(p, c). c \<in> set (children d cfg p)}"

definition recorded :: "PathsMap \<Rightarrow> (path \<times> path) set" where
  "recorded m = {(p, c). \<exists>cs. Map_get m p = Some cs \<and> c \<in> set cs}"

definition listed :: "PathsMap \<Rightarrow> (path \<times> path) set" where
  "listed m = {(p, c). \<exists>cs. (p, cs) \<in> set m \<and> c \<in> set cs}"

definition frontier_rank :: "world \<Rightarrow> ScanConfig \<Rightarrow> PathsMap \<Rightarrow> nat" where
  "frontier_rank d cfg m =
     (if m = [] then 0 else if listed m = {} then 1 else if listed m \<subseteq> edges d cfg then 2 else 3)"

lemma set_Set_add: "set (Set_add s x) = insert x (set s)"
  by (auto simp: Set_add_def)

lemma set_foldl_Set_add: "set (foldl Set_add a b) = set a \<union> set b"
  by (induction b arbitrary: a) (auto simp: set_Set_add)

lemma distinct_foldl_Set_add: "distinct a \<Longrightarrow> distinct (foldl Set_add a b)"
  by (induction b arbitrary: a) (auto simp: Set_add_def)

lemma set_new_Set: "set (new_Set xs) = set xs"
  by (simp add: new_Set_def set_foldl_Set_add)

lemma distinct_new_Set: "distinct (new_Set xs)"
  by (simp add: new_Set_def distinct_foldl_Set_add)

lemma set_union: "set (union a b) = set a \<union> set b"
  by (simp add: union_def set_foldl_Set_add)

lemma Map_get_Map_set: "Map_get (Map_set m k v) k' = (if k' = k then Some v else Map_get m k')"
  by (induction m) auto

lemma set_Map_set: "set (Map_set m k v) \<subseteq> insert (k, v) (set m)"
  by (induction m) (auto split: if_splits)

lemma recorded_Map_set:
  "recorded (Map_set m k v) = {(p, c). (p, c) \<in> recorded m \<and> p \<noteq> k} \<union> {(p, c). p = k \<and> c \<in> set v}"
  by (auto simp: recorded_def Map_get_Map_set split: if_splits)

lemma mergePaths_recorded:
  "mergePaths allPaths foundPaths = Inr allPaths' \<Longrightarrow>
     recorded allPaths' = recorded allPaths \<union> listed foundPaths \<and>
     listed foundPaths \<inter> recorded allPaths = {}"
proof (induction foundPaths arbitrary: allPaths)
  case Nil
  then show ?case by (simp add: listed_def)
next
  case (Cons kv rest)
  obtain p cs where kv: "kv = (p, cs)" by (cases kv)
  define N where "N = {(q, c). q = p \<and> c \<in> set cs}"
  have l: "listed (kv # rest) = N \<union> listed rest"
    by (auto simp: listed_def kv N_def)
  have step: "recorded allPaths' = recorded allPaths \<union> (N \<union> listed rest) \<and>
     (N \<union> listed rest) \<inter> recorded allPaths = {}"
    if m: "mergePaths A1 rest = Inr allPaths'" and r: "recorded A1 = recorded allPaths \<union> N"
      and n: "N \<inter> recorded allPaths = {}" for A1
  proof -
    from Cons.IH[OF m] have a: "recorded allPaths' = recorded A1 \<union> listed rest"
      and b: "listed rest \<inter> recorded A1 = {}" by simp_all
    have "recorded allPaths' = recorded allPaths \<union> (N \<union> listed rest)"
      unfolding a r by (simp add: Un_assoc)
    moreover have "listed rest \<inter> recorded allPaths = {}"
      using b unfolding r by (simp add: Int_Un_distrib)
    ultimately show ?thesis using n by (simp add: Int_Un_distrib2)
  qed
  show ?case
  proof (cases "Map_get allPaths p")
    case None
    then have m: "mergePaths (Map_set allPaths p cs) rest = Inr allPaths'"
      using Cons.prems by (simp add: kv)
    have r: "recorded (Map_set allPaths p cs) = recorded allPaths \<union> N"
      unfolding recorded_Map_set N_def using None by (auto simp: recorded_def)
    have n: "N \<inter> recorded allPaths = {}"
      unfolding N_def using None by (auto simp: recorded_def)
    show ?thesis unfolding l by (rule step[OF m r n])
  next
    case (Some old)
    then have dj: "isDisjointFrom old cs"
      and m: "mergePaths (Map_set allPaths p (union old cs)) rest = Inr allPaths'"
      using Cons.prems by (auto simp: kv split: if_splits)
    have r: "recorded (Map_set allPaths p (union old cs)) = recorded allPaths \<union> N"
      unfolding recorded_Map_set N_def set_union using Some by (auto simp: recorded_def)
    have n: "N \<inter> recorded allPaths = {}"
      unfolding N_def using Some dj by (auto simp: recorded_def isDisjointFrom_def)
    show ?thesis unfolding l by (rule step[OF m r n])
  qed
qed

lemma set_new_PathsMap_aux:
  "set (foldl (\<lambda>m (k, v). Map_set m k v) m0 kvs) \<subseteq> set m0 \<union> set kvs"
proof (induction kvs arbitrary: m0)
  case Nil
  then show ?case by simp
next
  case (Cons kv kvs)
  obtain k v where kv: "kv = (k, v)" by (cases kv)
  show ?case using Cons.IH[of "Map_set m0 k v"] set_Map_set[of m0 k v]
    by (auto simp: kv)
qed

lemma set_new_PathsMap: "set (new_PathsMap kvs) \<subseteq> set kvs"
  using set_new_PathsMap_aux[of "[]" kvs] by (simp add: new_PathsMap_def)

lemma scanParent_key: "scanParent d cfg p = Inr (Some (q, cs)) \<Longrightarrow> q = p"
  by (auto simp: scanParent_def split: if_splits option.splits scanned.splits sum.splits)

lemma childFiles_Nil [simp]: "childFiles d cfg [] = Inr []"
  by (simp add: childFiles_def)

lemma childFiles_Inr: "childFiles d cfg ps = Inr kvs \<longleftrightarrow> rejections d cfg ps = [] \<and> kvs = fulfilled d cfg ps"
  by (auto simp: childFiles_def split: list.splits)

lemma childFiles_Cons_Inr:
  "childFiles d cfg (p # ps) = Inr kvs \<longleftrightarrow>
     (\<exists>r rs. scanParent d cfg p = Inr r \<and> childFiles d cfg ps = Inr rs
        \<and> kvs = (case r of None \<Rightarrow> rs | Some kv \<Rightarrow> kv # rs))"
  by (auto simp: childFiles_Inr split: sum.splits option.splits)

lemma childFiles_listed:
  "childFiles d cfg ps = Inr kvs \<Longrightarrow> (q, cs) \<in> set kvs \<Longrightarrow> q \<in> set ps \<and> scanParent d cfg q = Inr (Some (q, cs))"
proof (induction ps arbitrary: kvs)
  case Nil
  then show ?case by simp
next
  case (Cons p ps)
  from Cons.prems(1) obtain r rs where r: "scanParent d cfg p = Inr r"
    and rs: "childFiles d cfg ps = Inr rs"
    and kvs: "kvs = (case r of None \<Rightarrow> rs | Some kv \<Rightarrow> kv # rs)"
    by (auto simp: childFiles_Cons_Inr)
  show ?case
  proof (cases "(q, cs) \<in> set rs")
    case True
    then show ?thesis using Cons.IH[OF rs] by simp
  next
    case False
    then have "r = Some (q, cs)" using Cons.prems(2) kvs by (cases r) auto
    then show ?thesis using r scanParent_key[of d cfg p q cs] by simp
  qed
qed

lemma findImportsOnce_listed:
  assumes "findImportsOnce d cfg ps = Inr found"
  shows "listed found \<subseteq> edges d cfg"
proof -
  obtain kvs where k: "childFiles d cfg ps = Inr kvs" and f: "found = new_PathsMap kvs"
    using assms by (auto simp: findImportsOnce_def split: sum.splits)
  show ?thesis
  proof
    fix e assume "e \<in> listed found"
    then obtain p c cs where e: "e = (p, c)" and "(p, cs) \<in> set found" and c: "c \<in> set cs"
      by (auto simp: listed_def)
    then have "(p, cs) \<in> set kvs" using set_new_PathsMap f by blast
    then have "scanParent d cfg p = Inr (Some (p, cs))" using childFiles_listed[OF k] by blast
    then show "e \<in> edges d cfg" using c by (simp add: edges_def children_def e)
  qed
qed

lemma children_exists: "c \<in> set (children d cfg p) \<Longrightarrow> p \<in> fst ` set (files d)"
  by (auto simp: children_def scanParent_def split: if_splits option.splits dest!: map_of_SomeD intro: rev_image_eqI)

lemma finite_edges: "finite (edges d cfg)"
proof -
  have "edges d cfg \<subseteq> (\<Union>p \<in> fst ` set (files d). {p} \<times> set (children d cfg p))"
    by (auto simp: edges_def dest: children_exists)
  moreover have "finite (\<Union>p \<in> fst ` set (files d). {p} \<times> set (children d cfg p))"
    by blast
  ultimately show ?thesis by (rule finite_subset)
qed

lemma flatValues_empty:
  assumes "listed m = {}"
  shows "flatValues m = []"
proof -
  have "\<And>kv. kv \<in> set m \<Longrightarrow> snd kv = []"
  proof -
    fix kv assume kv: "kv \<in> set m"
    show "snd kv = []"
    proof (cases "snd kv")
      case Nil
      then show ?thesis .
    next
      case (Cons c cs)
      then have "(fst kv, c) \<in> listed m" using kv
        unfolding listed_def by (cases kv) auto
      then show ?thesis using assms by simp
    qed
  qed
  then show ?thesis by (simp add: flatValues_def)
qed

lemma findImportsOnce_Nil: "findImportsOnce d cfg [] = Inr []"
  by (simp add: findImportsOnce_def new_PathsMap_def)

lemma scan_step_decreases:
  assumes ne: "foundPaths \<noteq> []"
    and m: "mergePaths allPaths foundPaths = Inr allPaths'"
    and f: "findImportsOnce d cfg (new_Set (flatValues foundPaths)) = Inr foundPaths'"
  shows "card (edges d cfg - recorded allPaths') < card (edges d cfg - recorded allPaths)
       \<or> (card (edges d cfg - recorded allPaths') = card (edges d cfg - recorded allPaths)
          \<and> frontier_rank d cfg foundPaths' < frontier_rank d cfg foundPaths)"
proof -
  from mergePaths_recorded[OF m]
  have r: "recorded allPaths' = recorded allPaths \<union> listed foundPaths"
    and dj: "listed foundPaths \<inter> recorded allPaths = {}" by auto
  have sub: "listed foundPaths' \<subseteq> edges d cfg" by (rule findImportsOnce_listed[OF f])
  show ?thesis
  proof (cases "listed foundPaths \<inter> edges d cfg = {}")
    case False
    then obtain e where e: "e \<in> listed foundPaths" "e \<in> edges d cfg" by blast
    then have "e \<notin> recorded allPaths" using dj by blast
    then have "edges d cfg - recorded allPaths' \<subset> edges d cfg - recorded allPaths"
      using e r by blast
    then show ?thesis using finite_edges[of d cfg] by (simp add: psubset_card_mono)
  next
    case True
    then have eq: "edges d cfg - recorded allPaths' = edges d cfg - recorded allPaths"
      using r by blast
    have "frontier_rank d cfg foundPaths' < frontier_rank d cfg foundPaths"
    proof (cases "listed foundPaths = {}")
      case True
      then have "foundPaths' = []"
        using f by (simp add: flatValues_empty new_Set_def findImportsOnce_Nil)
      then show ?thesis using ne by (simp add: frontier_rank_def)
    next
      case False
      then have "\<not> listed foundPaths \<subseteq> edges d cfg" using True by blast
      then have "frontier_rank d cfg foundPaths = 3" using ne False by (simp add: frontier_rank_def)
      moreover have "frontier_rank d cfg foundPaths' \<le> 2" using sub by (simp add: frontier_rank_def)
      ultimately show ?thesis by simp
    qed
    then show ?thesis using eq by simp
  qed
qed

function findImports_loop :: "world \<Rightarrow> ScanConfig \<Rightarrow> PathsMap \<Rightarrow> PathsMap \<Rightarrow> scan_error + path list" where
  "findImports_loop d cfg allPaths foundPaths =
     (if foundPaths = [] then Inr (new_Set (flatValues allPaths))
      else case mergePaths allPaths foundPaths of
        Inl e \<Rightarrow> Inl e
      | Inr allPaths' \<Rightarrow>
          (case findImportsOnce d cfg (new_Set (flatValues foundPaths)) of
             Inl e \<Rightarrow> Inl e
           | Inr foundPaths' \<Rightarrow> findImports_loop d cfg allPaths' foundPaths'))"
  by pat_completeness auto
termination
proof (relation "inv_image (less_than <*lex*> less_than)
    (\<lambda>(d, cfg, allPaths, foundPaths). (card (edges d cfg - recorded allPaths), frontier_rank d cfg foundPaths))")
  show "wf (inv_image (less_than <*lex*> less_than)
    (\<lambda>(d, cfg, allPaths, foundPaths). (card (edges d cfg - recorded allPaths), frontier_rank d cfg foundPaths)))"
    by (intro wf_inv_image wf_lex_prod wf_less_than)
next
  fix d cfg allPaths foundPaths allPaths' foundPaths'
  assume "foundPaths \<noteq> []" "mergePaths allPaths foundPaths = Inr allPaths'"
    "findImportsOnce d cfg (new_Set (flatValues foundPaths)) = Inr foundPaths'"
  from scan_step_decreases[OF this]
  show "((d, cfg, allPaths', foundPaths'), (d, cfg, allPaths, foundPaths))
       \<in> inv_image (less_than <*lex*> less_than)
    (\<lambda>(d, cfg, allPaths, foundPaths). (card (edges d cfg - recorded allPaths), frontier_rank d cfg foundPaths))"
    by auto
qed

declare findImports_loop.simps [simp del]

text \<open>\<open>findImports\<close>: the sentinel key of the first frontier is the empty string.\<close>

definition findImports :: "world \<Rightarrow> ScanConfig \<Rightarrow> path list \<Rightarrow> scan_error + path list" where
  "findImports d cfg paths = findImports_loop d cfg [] [([], new_Set paths)]"

section \<open>The watchers (dep-watcher.ts, index.ts)\<close>

text \<open>
  \<open>DependencyWatcher\<close> and its subclass \<open>BuildWatcher\<close> are one record: the fields of the
  object, the listeners that the classes themselves register on it, the \<open>FSWatcher\<close>
  objects that \<open>fs.watch\<close> has created so far (referred to by their index), and the trace
  of what the object did to the outside. Lifecycle calls and listeners run to completion
  one after the other, as the serialisation of calls requires; an \<open>await\<close> resolves
  before the next call starts.
\<close>

datatype WatcherState = Ready | Watching | Closed

datatype WatchEventType = RenameEvent | ChangeEvent

datatype event =
    Watch "path list"
  | Change WatchEventType "string option"
  | Build BuildOutput
  | Close

text \<open>
  What can be observed from outside: an event handed to \<open>emit\<close>, a call of
  \<open>findImports\<close>, of \<open>fs.watch\<close> (with the handle it returns), of \<open>FSWatcher.close\<close>, and
  of \<open>Bun.build\<close> (with the output it resolves to).
\<close>

datatype effect =
    Emit event
  | FindImports
  | FsWatch path nat
  | FsClose nat
  | BunBuild BuildOutput

text \<open>
  \<open>ClosedWatcher\<close> is \<open>Error("cannot watch a closed DependencyWatcher")\<close>; \<open>ENOENT\<close> is
  what \<open>fs.watch\<close> throws for a path that does not exist.
\<close>

datatype error = ClosedWatcher | ScanFailed scan_error | ENOENT path

record FSWatcher =
  filename :: path
  closeCalls :: nat

text \<open>
  \<open>closeListeners\<close> counts the \<open>once("close", ...)\<close> listeners registered by \<open>rescan\<close>, each
  of which closes \<open>this.watchers\<close>. \<open>buildOnWatch\<close>, \<open>buildOnChange\<close> and \<open>rescanOnBuild\<close>
  say whether the listeners of the \<open>BuildWatcher\<close> constructor, \<open>once("watch", ...)\<close>,
  \<open>on("change", ...)\<close> and \<open>on("build", () => this.rescan())\<close>, are registered.
  \<open>buildConfig\<close> is the entrypoints of the build configuration.
\<close>

record watcher =
  fullPaths :: "path list"
  scanConfig :: ScanConfig
  watchers :: "nat list"
  state :: WatcherState
  closeListeners :: nat
  buildOnWatch :: bool
  buildOnChange :: bool
  rescanOnBuild :: bool
  buildConfig :: "path list"
  heap :: "FSWatcher list"
  trace :: "effect list"

definition log_effect :: "effect \<Rightarrow> watcher \<Rightarrow> watcher" where
  "log_effect e s = s\<lparr>trace := trace s @ [e]\<rparr>"

definition FSWatcher_close :: "nat \<Rightarrow> watcher \<Rightarrow> watcher" where
  "FSWatcher_close h s =
     log_effect (FsClose h)
       (s\<lparr>heap := (heap s)[h := (heap s ! h)\<lparr>closeCalls := Suc (closeCalls (heap s ! h))\<rparr>]\<rparr>)"

definition closeWatchers :: "watcher \<Rightarrow> watcher" where
  "closeWatchers s = foldl (\<lambda>s h. FSWatcher_close h s) s (watchers s)"

definition fs_watch :: "world \<Rightarrow> path \<Rightarrow> watcher \<Rightarrow> (error + nat) \<times> watcher" where
  "fs_watch d filePath s =
     (if file_exists d filePath
      then (Inr (length (heap s)),
            log_effect (FsWatch filePath (length (heap s)))
              (s\<lparr>heap := heap s @ [\<lparr>filename = filePath, closeCalls = 0\<rparr>]\<rparr>))
      else (Inl (ENOENT filePath), s))"

fun watchAll :: "world \<Rightarrow> path list \<Rightarrow> watcher \<Rightarrow> (error + nat list) \<times> watcher" where
  "watchAll d [] s = (Inr [], s)"
| "watchAll d (filePath # rest) s =
     (case fs_watch d filePath s of
        (Inl e, s') \<Rightarrow> (Inl e, s')
      | (Inr h, s') \<Rightarrow>
          (case watchAll d rest s' of
             (Inl e, s'') \<Rightarrow> (Inl e, s'')
           | (Inr hs, s'') \<Rightarrow> (Inr (h # hs), s'')))"

text \<open>The head of \<open>rescan\<close>: the handles are closed and the state is set before the scan.\<close>

definition startScan :: "watcher \<Rightarrow> watcher" where
  "startScan s = log_effect FindImports ((closeWatchers s)\<lparr>state := Watching\<rparr>)"

lemma buildOnWatch_log_effect [simp]: "buildOnWatch (log_effect e s) = buildOnWatch s"
  by (simp add: log_effect_def)

lemma buildOnWatch_foldl_close:
  "buildOnWatch (foldl (\<lambda>s h. FSWatcher_close h s) s hs) = buildOnWatch s"
  by (induction hs arbitrary: s) (simp_all add: FSWatcher_close_def)

lemma buildOnWatch_startScan [simp]: "buildOnWatch (startScan s) = buildOnWatch s"
  by (simp add: startScan_def closeWatchers_def buildOnWatch_foldl_close)

lemma buildOnWatch_watchAll: "watchAll d ps s = (r, s') \<Longrightarrow> buildOnWatch s' = buildOnWatch s"
proof (induction ps arbitrary: s r s')
  case Nil
  then show ?case by simp
next
  case (Cons p ps)
  then show ?case
    by (auto simp: fs_watch_def split: if_splits prod.splits sum.splits)
qed

text \<open>
  \<open>rescan\<close>, \<open>emit("watch", paths)\<close>, the listener that builds and emits, and
  \<open>emit("build", buildOutput)\<close> call each other. A \<open>once\<close> listener is removed before it
  runs, so the chain ends. A rejection of the \<open>rescan\<close> that the build listener starts
  is not handled by anybody.
\<close>

function rescan :: "world \<Rightarrow> watcher \<Rightarrow> (error + path list) \<times> watcher"
  and emit_watch :: "world \<Rightarrow> path list \<Rightarrow> watcher \<Rightarrow> watcher"
  and buildListener :: "world \<Rightarrow> watcher \<Rightarrow> watcher"
  and emit_build :: "world \<Rightarrow> BuildOutput \<Rightarrow> watcher \<Rightarrow> watcher"
where
  "rescan d s =
     (if state s = Closed then (Inl ClosedWatcher, s)
      else case findImports d (scanConfig s) (fullPaths s) of
        Inl e \<Rightarrow> (Inl (ScanFailed e), startScan s)
      | Inr paths \<Rightarrow>
          (case watchAll d paths (startScan s) of
             (Inl e, s') \<Rightarrow> (Inl e, s')
           | (Inr hs, s') \<Rightarrow>
               (Inr paths,
                emit_watch d paths
                  (s'\<lparr>watchers := hs, closeListeners := Suc (closeListeners s')\<rparr>))))"
| "emit_watch d paths s =
     (if buildOnWatch s
      then buildListener d (log_effect (Emit (Watch paths)) (s\<lparr>buildOnWatch := False\<rparr>))
      else log_effect (Emit (Watch paths)) s)"
| "buildListener d s =
     emit_build d (bunBuild d (buildConfig s)) (log_effect (BunBuild (bunBuild d (buildConfig s))) s)"
| "emit_build d buildOutput s =
     (if rescanOnBuild s
      then snd (rescan d (log_effect (Emit (Build buildOutput)) s))
      else log_effect (Emit (Build buildOutput)) s)"
  by pat_completeness auto
termination
proof (relation "measure (\<lambda>x. case x of
      Inl (Inl (d, s)) \<Rightarrow> (if buildOnWatch s then 5 else 1)
    | Inl (Inr (d, paths, s)) \<Rightarrow> (if buildOnWatch s then 4 else 0)
    | Inr (Inl (d, s)) \<Rightarrow> (if buildOnWatch s then 7 else 3)
    | Inr (Inr (d, buildOutput, s)) \<Rightarrow> (if buildOnWatch s then 6 else 2))", goal_cases)
  case 1
  then show ?case by simp
next
  case (2 d s paths x y hs)
  then have "buildOnWatch y = buildOnWatch s"
    using buildOnWatch_watchAll[of d paths "startScan s" "Inr hs" y] by simp
  then show ?case by simp
next
  case 3
  then show ?case by simp
next
  case 4
  then show ?case by simp
next
  case 5
  then show ?case by simp
qed

declare rescan.simps [simp del] emit_watch.simps [simp del] buildListener.simps [simp del]
  emit_build.simps [simp del]

definition watch :: "world \<Rightarrow> watcher \<Rightarrow> (error + path list option) \<times> watcher" where
  "watch d s =
     (if state s = Watching then (Inr None, s)
      else case rescan d s of
        (Inl e, s') \<Rightarrow> (Inl e, s')
      | (Inr paths, s') \<Rightarrow> (Inr (Some paths), s'))"

text \<open>\<open>emit("close")\<close> runs every close listener once; each is removed as it runs.\<close>

definition emit_close :: "watcher \<Rightarrow> watcher" where
  "emit_close s =
     ((closeWatchers ^^ closeListeners s) (log_effect (Emit Close) s))\<lparr>closeListeners := 0\<rparr>"

definition removeAllListeners :: "watcher \<Rightarrow> watcher" where
  "removeAllListeners s =
     s\<lparr>closeListeners := 0, buildOnWatch := False, buildOnChange := False, rescanOnBuild := False\<rparr>"

definition close :: "watcher \<Rightarrow> watcher" where
  "close s =
     (if state s = Closed then s
      else removeAllListeners (emit_close ((closeWatchers s)\<lparr>state := Closed\<rparr>)))"

definition emitFileChanges :: "world \<Rightarrow> WatchEventType \<Rightarrow> string option \<Rightarrow> watcher \<Rightarrow> watcher" where
  "emitFileChanges d event name s =
     (if buildOnChange s then buildListener d (log_effect (Emit (Change event name)) s)
      else log_effect (Emit (Change event name)) s)"

text \<open>A native notification reaches the callback of a handle that is not closed.\<close>

definition fs_notify :: "world \<Rightarrow> nat \<Rightarrow> WatchEventType \<Rightarrow> string option \<Rightarrow> watcher \<Rightarrow> watcher" where
  "fs_notify d h event name s =
     (if h < length (heap s) \<and> closeCalls (heap s ! h) = 0 then emitFileChanges d event name s
      else s)"

text \<open>
  The constructors. An entrypoint is an absolute path, for which
  \<open>path.resolve(CURRENT_DIR, entrypoint)\<close> is the entrypoint itself.
\<close>

definition new_DependencyWatcher :: "path list \<Rightarrow> (path \<Rightarrow> bool) list \<Rightarrow> watcher" where
  "new_DependencyWatcher paths exclude =
     \<lparr>fullPaths = paths, scanConfig = \<lparr>excludeGlobs = exclude\<rparr>, watchers = [], state = Ready,
      closeListeners = 0, buildOnWatch = False, buildOnChange = False, rescanOnBuild = False,
      buildConfig = [], heap = [], trace = []\<rparr>"

definition new_BuildWatcher :: "path list \<Rightarrow> bool \<Rightarrow> (path \<Rightarrow> bool) list \<Rightarrow> watcher" where
  "new_BuildWatcher entrypoints rescanOpt exclude =
     (new_DependencyWatcher entrypoints exclude)
       \<lparr>buildOnWatch := True, buildOnChange := True, rescanOnBuild := rescanOpt,
        buildConfig := entrypoints\<rparr>"

section \<open>What the properties speak of\<close>

text \<open>
  The extractor and the resolver are collaborators that may throw. \<open>collaborators_succeed\<close>
  holds of a world in which no file makes \<open>scanImports\<close> throw anything but a
  \<open>BuildMessage\<close> and every import specifier of every file resolves.
\<close>

definition collaborators_succeed :: "world \<Rightarrow> bool" where
  "collaborators_succeed d =
     list_all (\<lambda>(p, s). case s of
         Imports specs \<Rightarrow> list_all (\<lambda>spec. resolveSync d spec p \<noteq> None) specs
       | BuildMessageError \<Rightarrow> True
       | OtherError \<Rightarrow> False) (files d)"



fun events_of :: "effect list \<Rightarrow> event list" where
  "events_of [] = []"
| "events_of (Emit ev # rest) = ev # events_of rest"
| "events_of (e # rest) = events_of rest"

definition emitted :: "watcher \<Rightarrow> event list" where
  "emitted s = events_of (trace s)"

text \<open>The handles that have not been closed, and the paths they watch.\<close>

definition active :: "watcher \<Rightarrow> nat list" where
  "active s = filter (\<lambda>h. closeCalls (heap s ! h) = 0) [0..<length (heap s)]"

definition active_paths :: "watcher \<Rightarrow> path list" where
  "active_paths s = map (\<lambda>h. filename (heap s ! h)) (active s)"

text \<open>Every handle that is not closed is in \<open>this.watchers\<close>, and no two of them watch the same path.\<close>

definition one_handle_per_file :: "watcher \<Rightarrow> bool" where
  "one_handle_per_file s = (set (active s) \<subseteq> set (watchers s) \<and> distinct (active_paths s))"

fun watch_events_of :: "event list \<Rightarrow> path list list" where
  "watch_events_of [] = []"
| "watch_events_of (Watch paths # rest) = paths # watch_events_of rest"
| "watch_events_of (ev # rest) = watch_events_of rest"

definition watch_events :: "watcher \<Rightarrow> path list list" where
  "watch_events s = watch_events_of (emitted s)"


text \<open>
  The handles that are open from moment to moment, each with the path it watches, read
  off the calls of \<open>fs.watch\<close> and \<open>FSWatcher.close\<close>: \<open>handles_after e hs\<close> are the open
  handles after the effect \<open>e\<close> when \<open>hs\<close> were open before it, and \<open>moments hs es\<close> lists
  the open handles before the first effect of \<open>es\<close>, between any two, and after the last.
\<close>

fun handles_after :: "effect \<Rightarrow> (nat \<times> path) list \<Rightarrow> (nat \<times> path) list" where
  "handles_after (FsWatch filePath h) hs = hs @ [(h, filePath)]"
| "handles_after (FsClose h) hs = filter (\<lambda>x. fst x \<noteq> h) hs"
| "handles_after e hs = hs"

fun moments :: "(nat \<times> path) list \<Rightarrow> effect list \<Rightarrow> (nat \<times> path) list list" where
  "moments hs [] = [hs]"
| "moments hs (e # es) = hs # moments (handles_after e hs) es"








text \<open>The calls of a session: the lifecycle calls and the native notifications, each on the disk of its moment.\<close>

datatype call = CallWatch | CallRescan | CallClose | Notify nat WatchEventType "string option"

fun perform :: "world \<Rightarrow> call \<Rightarrow> watcher \<Rightarrow> watcher" where
  "perform d CallWatch s = snd (watch d s)"
| "perform d CallRescan s = snd (rescan d s)"
| "perform d CallClose s = close s"
| "perform d (Notify h event name) s = fs_notify d h event name s"






section \<open>Example disks and watchers\<close>

definition no_build :: "path list \<Rightarrow> BuildOutput" where
  "no_build entrypoints = \<lparr>success = True, outputs = [], logs = []\<rparr>"

definition no_exclude :: ScanConfig where
  "no_exclude = \<lparr>excludeGlobs = []\<rparr>"

text \<open>
  A diamond whose shared file has an import of its own: \<open>/a.ts\<close> imports \<open>/b.ts\<close> and
  \<open>/c.ts\<close>, \<open>/b.ts\<close> imports \<open>/c.ts\<close>, \<open>/c.ts\<close> imports \<open>/d.ts\<close>.
\<close>

definition diamond :: world where
  "diamond = \<lparr>files = [(''/a.ts'', Imports [''/b.ts'', ''/c.ts'']), (''/b.ts'', Imports [''/c.ts'']),
      (''/c.ts'', Imports [''/d.ts'']), (''/d.ts'', Imports [])],
     resolveSync = (\<lambda>spec parent. Some spec), bunBuild = no_build,
     rejectTime = (\<lambda>parentPath. 0)\<rparr>"

definition diamond_depth :: "path \<Rightarrow> nat" where
  "diamond_depth p =
     (if p = ''/a.ts'' then 0 else if p = ''/b.ts'' then 1 else if p = ''/c.ts'' then 2 else 3)"


text \<open>The glob \<open>/node_modules/**\<close>.\<close>

definition node_modules_glob :: "path \<Rightarrow> bool" where
  "node_modules_glob p = (take 14 p = ''/node_modules/'')"

definition json_glob :: "path \<Rightarrow> bool" where
  "json_glob p = endsWith p ''.json''"

definition project :: world where
  "project = \<lparr>files = [(''/a.ts'', Imports [''/b.ts'', ''/node_modules/x.js'']), (''/b.ts'', Imports []),
      (''/node_modules/x.js'', Imports [])],
     resolveSync = (\<lambda>spec parent. Some spec), bunBuild = no_build,
     rejectTime = (\<lambda>parentPath. 0)\<rparr>"

definition project_relisted :: world where
  "project_relisted = \<lparr>files = [(''/node_modules/x.js'', Imports []), (''/b.ts'', Imports []),
      (''/a.ts'', Imports [''/b.ts'', ''/node_modules/x.js''])],
     resolveSync = (\<lambda>spec parent. Some spec), bunBuild = no_build,
     rejectTime = (\<lambda>parentPath. 0)\<rparr>"

text \<open>\<open>/a.ts\<close> imports \<open>/b.ts\<close>.\<close>

definition ab :: world where
  "ab = \<lparr>files = [(''/a.ts'', Imports [''/b.ts'']), (''/b.ts'', Imports [])],
     resolveSync = (\<lambda>spec parent. Some spec), bunBuild = no_build,
     rejectTime = (\<lambda>parentPath. 0)\<rparr>"



text \<open>
  Two files that each import a module that does not resolve; in \<open>unresolved_b_first\<close> the
  file system answers for \<open>/b.ts\<close> before it answers for \<open>/a.ts\<close>.
\<close>

definition unresolved :: world where
  "unresolved = \<lparr>files = [(''/a.ts'', Imports [''/nope1.ts'']), (''/b.ts'', Imports [''/nope2.ts''])],
     resolveSync = (\<lambda>spec parent. if spec = ''/nope1.ts'' \<or> spec = ''/nope2.ts'' then None else Some spec),
     bunBuild = no_build, rejectTime = (\<lambda>parentPath. 0)\<rparr>"

definition unresolved_b_first :: world where
  "unresolved_b_first = unresolved\<lparr>rejectTime := (\<lambda>parentPath. if parentPath = ''/b.ts'' then 0 else 1)\<rparr>"




definition watching_ab :: watcher where
  "watching_ab = snd (watch ab (new_DependencyWatcher [''/a.ts''] []))"





section \<open>Properties of the scanner\<close>

subsection \<open>Evaluating an example\<close>

lemmas scan_eval = findImports_def findImports_loop.simps findImportsOnce_def childFiles_def scanParent_def
  new_Set_def Set_add_def new_PathsMap_def flatValues_def extRegex_def endsWith_def file_exists_def
  isDisjointFrom_def intersection_def union_def

lemmas watcher_eval = watch_def rescan.simps emit_watch.simps buildListener.simps emit_build.simps
  close_def emit_close_def removeAllListeners_def closeWatchers_def FSWatcher_close_def
  log_effect_def startScan_def fs_watch_def emitFileChanges_def fs_notify_def
  new_DependencyWatcher_def new_BuildWatcher_def

subsection \<open>An acyclic graph reported as a cycle\<close>

lemma diamond_children:
  "children diamond no_exclude ''/a.ts'' = [''/b.ts'', ''/c.ts'']"
  "children diamond no_exclude ''/b.ts'' = [''/c.ts'']"
  "children diamond no_exclude ''/c.ts'' = [''/d.ts'']"
  "children diamond no_exclude ''/d.ts'' = []"
  by (simp_all add: children_def scan_eval diamond_def no_exclude_def)

lemma diamond_acyclic: "acyclic (edges diamond no_exclude)"
proof -
  have "edges diamond no_exclude \<subseteq> inv_image less_than diamond_depth"
  proof
    fix e assume e: "e \<in> edges diamond no_exclude"
    obtain p c where pc: "e = (p, c)" by (cases e)
    from e have c: "c \<in> set (children diamond no_exclude p)" by (simp add: edges_def pc)
    then have "p \<in> fst ` set (files diamond)" by (rule children_exists)
    then have "p = ''/a.ts'' \<or> p = ''/b.ts'' \<or> p = ''/c.ts'' \<or> p = ''/d.ts''"
      by (auto simp: diamond_def)
    then show "e \<in> inv_image less_than diamond_depth"
      using c by (auto simp: pc diamond_children diamond_depth_def)
  qed
  moreover have "acyclic (inv_image less_than diamond_depth)"
    by (intro wf_acyclic wf_inv_image wf_less_than)
  ultimately show ?thesis by (rule acyclic_subset[rotated])
qed

text \<open>
  Claim C1. On an acyclic import graph the scan should return the files reachable from the
  entry paths. On the diamond above, which has no import cycle, the scan of \<open>/a.ts\<close>
  does not return \<open>/a.ts\<close>, \<open>/b.ts\<close>, \<open>/c.ts\<close>, \<open>/d.ts\<close>: \<open>/c.ts\<close> is expanded at
  depth 1 and again at depth 2, the second merge finds the link from \<open>/c.ts\<close> to \<open>/d.ts\<close>
  recorded already, and the scan fails with "Cyclic import detected".
\<close>

theorem C1_diamond_reported_as_cycle:
  "acyclic (edges diamond no_exclude) \<and>
   findImports diamond no_exclude [''/a.ts''] = Inl (CyclicImport ''/c.ts'' [''/d.ts''])"
proof
  show "acyclic (edges diamond no_exclude)" by (rule diamond_acyclic)
  show "findImports diamond no_exclude [''/a.ts''] = Inl (CyclicImport ''/c.ts'' [''/d.ts''])"
    by (simp add: scan_eval diamond_def no_exclude_def)
qed

subsection \<open>Cycles\<close>

lemma resolveImports_total:
  "\<forall>spec \<in> set specs. resolveSync d spec p \<noteq> None \<Longrightarrow> \<exists>rs. resolveImports d cfg p specs = Inr rs"
  by (induction specs) (auto split: option.splits sum.splits)

lemma scanParent_no_throw:
  assumes "collaborators_succeed d"
  shows "scanParent d cfg p \<noteq> Inl e"
proof (cases "map_of (files d) p")
  case None
  then show ?thesis by (simp add: scanParent_def)
next
  case (Some s)
  then have mem: "(p, s) \<in> set (files d)" by (rule map_of_SomeD)
  show ?thesis
  proof (cases s)
    case (Imports specs)
    then have "\<forall>spec \<in> set specs. resolveSync d spec p \<noteq> None"
      using assms mem by (auto simp: collaborators_succeed_def list_all_iff)
    then obtain rs where "resolveImports d cfg p specs = Inr rs"
      using resolveImports_total by blast
    then show ?thesis using Some Imports by (simp add: scanParent_def)
  next
    case BuildMessageError
    then show ?thesis using Some by (simp add: scanParent_def)
  next
    case OtherError
    then show ?thesis using assms mem by (auto simp: collaborators_succeed_def list_all_iff)
  qed
qed

lemma rejections_thrown:
  "(p, e) \<in> set (rejections d cfg ps) \<longleftrightarrow> p \<in> set ps \<and> scanParent d cfg p = Inl e"
  by (induction ps) (auto split: sum.splits)

lemma firstRejection_member: "firstRejection d r rs \<in> set (r # rs)"
  by (induction rs arbitrary: r) auto

lemma childFiles_Inl:
  assumes "childFiles d cfg ps = Inl e"
  shows "\<exists>p \<in> set ps. scanParent d cfg p = Inl e"
proof -
  from assms obtain r rs where r: "rejections d cfg ps = r # rs" and e: "e = snd (firstRejection d r rs)"
    by (auto simp: childFiles_def split: list.splits)
  have "firstRejection d r rs \<in> set (rejections d cfg ps)"
    using firstRejection_member[of d r rs] by (simp add: r)
  then have "(fst (firstRejection d r rs), e) \<in> set (rejections d cfg ps)" by (simp add: e)
  then show ?thesis by (auto simp: rejections_thrown)
qed

lemma childFiles_no_throw:
  "collaborators_succeed d \<Longrightarrow> childFiles d cfg ps \<noteq> Inl e"
  using scanParent_no_throw[of d cfg] childFiles_Inl[of d cfg ps e] by blast

lemma findImportsOnce_no_throw:
  "collaborators_succeed d \<Longrightarrow> findImportsOnce d cfg ps \<noteq> Inl e"
  using childFiles_no_throw[of d cfg ps]
  by (auto simp: findImportsOnce_def split: sum.splits)

lemma childFiles_member:
  "childFiles d cfg ps = Inr kvs \<Longrightarrow> x \<in> set ps \<Longrightarrow> scanParent d cfg x = Inr (Some kv) \<Longrightarrow> kv \<in> set kvs"
proof (induction ps arbitrary: kvs)
  case Nil
  then show ?case by simp
next
  case (Cons p ps)
  from Cons.prems(1) obtain r rs where r: "scanParent d cfg p = Inr r"
    and rs: "childFiles d cfg ps = Inr rs"
    and kvs: "kvs = (case r of None \<Rightarrow> rs | Some kv \<Rightarrow> kv # rs)"
    by (auto simp: childFiles_Cons_Inr)
  show ?case
  proof (cases "x = p")
    case True
    then show ?thesis using r kvs Cons.prems(3) by simp
  next
    case False
    then have "kv \<in> set rs" using Cons.IH[OF rs _ Cons.prems(3)] Cons.prems(2) by simp
    then show ?thesis using kvs by (cases r) auto
  qed
qed

lemma childFiles_distinct:
  "childFiles d cfg ps = Inr kvs \<Longrightarrow> distinct ps \<Longrightarrow> distinct (map fst kvs)"
proof (induction ps arbitrary: kvs)
  case Nil
  then show ?case by simp
next
  case (Cons p ps)
  from Cons.prems(1) obtain r rs where r: "scanParent d cfg p = Inr r"
    and rs: "childFiles d cfg ps = Inr rs"
    and kvs: "kvs = (case r of None \<Rightarrow> rs | Some kv \<Rightarrow> kv # rs)"
    by (auto simp: childFiles_Cons_Inr)
  have d: "distinct (map fst rs)" using Cons.IH[OF rs] Cons.prems(2) by simp
  show ?case
  proof (cases r)
    case None
    then show ?thesis using d kvs by simp
  next
    case (Some kv)
    then have "fst kv = p" using r scanParent_key[of d cfg p "fst kv" "snd kv"] by simp
    moreover have "p \<notin> fst ` set rs"
      using childFiles_listed[OF rs] Cons.prems(2) by force
    ultimately show ?thesis using d kvs Some by simp
  qed
qed

lemma Map_set_fresh: "k \<notin> fst ` set m \<Longrightarrow> Map_set m k v = m @ [(k, v)]"
  by (induction m) auto

lemma foldl_Map_set_distinct:
  "distinct (map fst (m @ kvs)) \<Longrightarrow> foldl (\<lambda>m (k, v). Map_set m k v) m kvs = m @ kvs"
proof (induction kvs arbitrary: m)
  case Nil
  then show ?case by simp
next
  case (Cons kv kvs)
  obtain k v where kv: "kv = (k, v)" by (cases kv)
  have "k \<notin> fst ` set m" using Cons.prems by (auto simp: kv)
  then have "Map_set m k v = m @ [(k, v)]" by (rule Map_set_fresh)
  then show ?case using Cons.IH[of "m @ [(k, v)]"] Cons.prems by (simp add: kv)
qed

lemma new_PathsMap_distinct: "distinct (map fst kvs) \<Longrightarrow> new_PathsMap kvs = kvs"
  using foldl_Map_set_distinct[of "[]" kvs] by (simp add: new_PathsMap_def)

lemma findImportsOnce_childFiles:
  "findImportsOnce d cfg ps = Inr found \<Longrightarrow> distinct ps \<Longrightarrow> childFiles d cfg ps = Inr found"
  by (auto simp: findImportsOnce_def new_PathsMap_distinct split: sum.splits dest: childFiles_distinct)


lemma edge_scanParent:
  assumes "(x, y) \<in> edges d cfg"
  shows "\<exists>cs. scanParent d cfg x = Inr (Some (x, cs)) \<and> y \<in> set cs"
proof -
  have y: "y \<in> set (children d cfg x)" using assms by (simp add: edges_def)
  show ?thesis
  proof (cases "scanParent d cfg x")
    case (Inl e)
    then show ?thesis using y by (simp add: children_def)
  next
    case (Inr r)
    show ?thesis
    proof (cases r)
      case None
      then show ?thesis using y Inr by (simp add: children_def)
    next
      case (Some kv)
      obtain q cs where kv: "kv = (q, cs)" by (cases kv)
      have "q = x" using Inr Some kv scanParent_key[of d cfg x q cs] by simp
      moreover have "y \<in> set cs" using y Inr Some kv by (simp add: children_def)
      ultimately show ?thesis using Inr Some kv by simp
    qed
  qed
qed


lemma set_intersection: "set (intersection a b) = set a \<inter> set b"
  by (auto simp: intersection_def)



lemma resolveImports_error_kind:
  "resolveImports d cfg p specs = Inl e \<Longrightarrow> \<exists>spec. e = ResolveError spec p"
  by (induction specs) (auto split: option.splits sum.splits if_splits)

lemma scanParent_error_kind:
  "scanParent d cfg p = Inl e \<Longrightarrow> e = ScanImportsError p \<or> (\<exists>spec. e = ResolveError spec p)"
  by (auto simp: scanParent_def split: if_splits option.splits scanned.splits sum.splits
      dest: resolveImports_error_kind)

lemma extRegex_nonempty: "extRegex p \<Longrightarrow> p \<noteq> []"
  by (auto simp: extRegex_def endsWith_def)

lemma findImportsOnce_keys:
  assumes "findImportsOnce d cfg ps = Inr found"
  shows "[] \<notin> fst ` set found"
proof
  assume "[] \<in> fst ` set found"
  then obtain cs where "([], cs) \<in> set found" by auto
  moreover obtain kvs where k: "childFiles d cfg ps = Inr kvs" and f: "found = new_PathsMap kvs"
    using assms by (auto simp: findImportsOnce_def split: sum.splits)
  ultimately have "([], cs) \<in> set kvs" using set_new_PathsMap by blast
  then have "scanParent d cfg [] = Inr (Some ([], cs))" using childFiles_listed[OF k] by blast
  then show False by (simp add: scanParent_def extRegex_def endsWith_def)
qed

lemma findImportsOnce_found:
  assumes "findImportsOnce d cfg (new_Set ps) = Inr found"
  shows "distinct (map fst found)"
    and "(q, qs) \<in> set found \<Longrightarrow> q \<in> set ps \<and> q \<noteq> [] \<and> qs = children d cfg q"
proof -
  have cf: "childFiles d cfg (new_Set ps) = Inr found"
    using assms by (rule findImportsOnce_childFiles) (rule distinct_new_Set)
  show "distinct (map fst found)"
    using cf by (rule childFiles_distinct) (rule distinct_new_Set)
  assume q: "(q, qs) \<in> set found"
  from childFiles_listed[OF cf q] have "q \<in> set ps" and "scanParent d cfg q = Inr (Some (q, qs))"
    by (simp_all add: set_new_Set)
  moreover have "q \<noteq> []" using findImportsOnce_keys[OF assms] q by force
  ultimately show "q \<in> set ps \<and> q \<noteq> [] \<and> qs = children d cfg q"
    by (simp add: children_def)
qed





lemma relpow_Image_Suc: "q \<in> (R ^^ k) `` E \<Longrightarrow> (q, x) \<in> R \<Longrightarrow> x \<in> (R ^^ Suc k) `` E"
  by auto


lemma foldl_Set_add_distinct: "distinct (a @ xs) \<Longrightarrow> foldl Set_add a xs = a @ xs"
proof (induction xs arbitrary: a)
  case Nil
  then show ?case by simp
next
  case (Cons x xs)
  then have "Set_add a x = a @ [x]" by (simp add: Set_add_def)
  then show ?case using Cons.IH[of "a @ [x]"] Cons.prems by simp
qed

lemma new_Set_distinct: "distinct xs \<Longrightarrow> new_Set xs = xs"
  using foldl_Set_add_distinct[of "[]" xs] by (simp add: new_Set_def)

lemma findImports_unfold:
  "findImports d cfg paths =
     (case findImportsOnce d cfg (new_Set paths) of
        Inl e \<Rightarrow> Inl e
      | Inr found \<Rightarrow> findImports_loop d cfg [([], new_Set paths)] found)"
proof -
  have "new_Set (new_Set paths) = new_Set paths"
    by (rule new_Set_distinct) (rule distinct_new_Set)
  then show ?thesis
    by (simp add: findImports_def findImports_loop.simps[of d cfg "[]"] flatValues_def)
qed










subsection \<open>Two scans of one tree\<close>

lemma resolveImports_cong:
  assumes "map_of (files d1) = map_of (files d2)" and "resolveSync d1 = resolveSync d2"
    and "set (excludeGlobs c1) = set (excludeGlobs c2)"
  shows "resolveImports d1 c1 p specs = resolveImports d2 c2 p specs"
proof (induction specs)
  case Nil
  then show ?case by simp
next
  case (Cons spec specs)
  have "list_all (\<lambda>glob. \<not> glob q) (excludeGlobs c1) = list_all (\<lambda>glob. \<not> glob q) (excludeGlobs c2)" for q
    using assms(3) by (simp add: list_all_iff)
  moreover have "file_exists d1 q = file_exists d2 q" for q
    using assms(1) by (simp add: file_exists_def)
  ultimately show ?case using Cons assms(2) by (simp split: option.splits sum.splits)
qed

lemma scanParent_cong:
  assumes "map_of (files d1) = map_of (files d2)" and "resolveSync d1 = resolveSync d2"
    and "set (excludeGlobs c1) = set (excludeGlobs c2)"
  shows "scanParent d1 c1 p = scanParent d2 c2 p"
  using resolveImports_cong[OF assms] assms(1)
  by (simp add: scanParent_def split: option.splits sum.splits scanned.splits)

lemma rejections_cong:
  assumes "map_of (files d1) = map_of (files d2)" and "resolveSync d1 = resolveSync d2"
    and "set (excludeGlobs c1) = set (excludeGlobs c2)"
  shows "rejections d1 c1 ps = rejections d2 c2 ps"
  by (induction ps) (simp_all add: scanParent_cong[OF assms] split: sum.splits)

lemma fulfilled_cong:
  assumes "map_of (files d1) = map_of (files d2)" and "resolveSync d1 = resolveSync d2"
    and "set (excludeGlobs c1) = set (excludeGlobs c2)"
  shows "fulfilled d1 c1 ps = fulfilled d2 c2 ps"
  by (induction ps) (simp_all add: scanParent_cong[OF assms] split: sum.splits option.splits)

lemma firstRejection_cong:
  "rejectTime d1 = rejectTime d2 \<Longrightarrow> firstRejection d1 r rs = firstRejection d2 r rs"
  by (induction rs arbitrary: r) simp_all

lemma childFiles_cong:
  assumes "map_of (files d1) = map_of (files d2)" and "resolveSync d1 = resolveSync d2"
    and "set (excludeGlobs c1) = set (excludeGlobs c2)" and "rejectTime d1 = rejectTime d2"
  shows "childFiles d1 c1 ps = childFiles d2 c2 ps"
  using rejections_cong[OF assms(1-3)] fulfilled_cong[OF assms(1-3)] firstRejection_cong[OF assms(4)]
  by (simp add: childFiles_def split: list.splits)

lemma findImports_loop_cong:
  assumes "map_of (files d1) = map_of (files d2)" and "resolveSync d1 = resolveSync d2"
    and "set (excludeGlobs c1) = set (excludeGlobs c2)" and "rejectTime d1 = rejectTime d2"
  shows "findImports_loop d1 c1 allPaths foundPaths = findImports_loop d2 c2 allPaths foundPaths"
  using assms
proof (induction d1 c1 allPaths foundPaths rule: findImports_loop.induct)
  case (1 d cfg allPaths foundPaths)
  have once: "findImportsOnce d cfg ps = findImportsOnce d2 c2 ps" for ps
    using childFiles_cong[OF "1.prems"] by (simp add: findImportsOnce_def)
  show ?case
  proof (cases "foundPaths = []")
    case True
    then show ?thesis by (simp add: findImports_loop.simps)
  next
    case ne: False
    show ?thesis
    proof (cases "mergePaths allPaths foundPaths")
      case (Inl e)
      then show ?thesis using ne by (simp add: findImports_loop.simps)
    next
      case (Inr allPaths')
      show ?thesis
      proof (cases "findImportsOnce d cfg (new_Set (flatValues foundPaths))")
        case (Inl e)
        then show ?thesis using ne Inr once
          by (simp add: findImports_loop.simps[of _ _ allPaths foundPaths])
      next
        case found: (Inr foundPaths')
        have "findImports_loop d cfg allPaths' foundPaths' = findImports_loop d2 c2 allPaths' foundPaths'"
          using "1.IH"[OF ne Inr found "1.prems"] .
        then show ?thesis using ne Inr found once
          by (simp add: findImports_loop.simps[of _ _ allPaths foundPaths])
      qed
    qed
  qed
qed

lemma childFiles_race:
  assumes "map_of (files d1) = map_of (files d2)" and "resolveSync d1 = resolveSync d2"
    and "set (excludeGlobs c1) = set (excludeGlobs c2)"
  shows "childFiles d1 c1 ps = Inr kvs \<longleftrightarrow> childFiles d2 c2 ps = Inr kvs"
    and "childFiles d1 c1 ps = Inl e1 \<Longrightarrow>
      \<exists>e2. childFiles d2 c2 ps = Inl e2 \<and>
        (e1 = e2 \<or> (\<exists>p \<in> set ps. \<exists>q \<in> set ps. p \<noteq> q
            \<and> scanParent d1 c1 p = Inl e1 \<and> scanParent d1 c1 q = Inl e2))"
proof -
  note rc = rejections_cong[OF assms, of ps]
  show "childFiles d1 c1 ps = Inr kvs \<longleftrightarrow> childFiles d2 c2 ps = Inr kvs"
    using rc fulfilled_cong[OF assms, of ps] by (simp add: childFiles_Inr)
  assume "childFiles d1 c1 ps = Inl e1"
  then obtain r rs where r: "rejections d1 c1 ps = r # rs" and e1: "e1 = snd (firstRejection d1 r rs)"
    by (auto simp: childFiles_def split: list.splits)
  define e2 where "e2 = snd (firstRejection d2 r rs)"
  have c2: "childFiles d2 c2 ps = Inl e2"
    using r rc by (simp add: childFiles_def e2_def)
  have "firstRejection d1 r rs \<in> set (rejections d1 c1 ps)"
    and "firstRejection d2 r rs \<in> set (rejections d1 c1 ps)"
    using firstRejection_member[of d1 r rs] firstRejection_member[of d2 r rs] by (simp_all add: r)
  then have "(fst (firstRejection d1 r rs), e1) \<in> set (rejections d1 c1 ps)"
    and "(fst (firstRejection d2 r rs), e2) \<in> set (rejections d1 c1 ps)"
    by (simp_all add: e1 e2_def)
  then obtain p q where p: "p \<in> set ps" "scanParent d1 c1 p = Inl e1"
    and q: "q \<in> set ps" "scanParent d1 c1 q = Inl e2"
    by (auto simp: rejections_thrown)
  have "e1 = e2 \<or> p \<noteq> q" using p(2) q(2) by auto
  then show "\<exists>e2. childFiles d2 c2 ps = Inl e2 \<and>
        (e1 = e2 \<or> (\<exists>p \<in> set ps. \<exists>q \<in> set ps. p \<noteq> q
            \<and> scanParent d1 c1 p = Inl e1 \<and> scanParent d1 c1 q = Inl e2))"
    using c2 p q by blast
qed

lemma findImportsOnce_race:
  assumes "map_of (files d1) = map_of (files d2)" and "resolveSync d1 = resolveSync d2"
    and "set (excludeGlobs c1) = set (excludeGlobs c2)"
  shows "findImportsOnce d1 c1 ps = Inr found \<longleftrightarrow> findImportsOnce d2 c2 ps = Inr found"
    and "findImportsOnce d1 c1 ps = Inl e1 \<Longrightarrow>
      \<exists>e2. findImportsOnce d2 c2 ps = Inl e2 \<and>
        (e1 = e2 \<or> (\<exists>p \<in> set ps. \<exists>q \<in> set ps. p \<noteq> q
            \<and> scanParent d1 c1 p = Inl e1 \<and> scanParent d1 c1 q = Inl e2))"
proof -
  show "findImportsOnce d1 c1 ps = Inr found \<longleftrightarrow> findImportsOnce d2 c2 ps = Inr found"
  proof (cases "childFiles d1 c1 ps")
    case (Inl e)
    from childFiles_race(2)[OF assms this] obtain e2 where "childFiles d2 c2 ps = Inl e2" by blast
    then show ?thesis using Inl by (simp add: findImportsOnce_def)
  next
    case (Inr kvs)
    then have "childFiles d2 c2 ps = Inr kvs" using childFiles_race(1)[OF assms] by simp
    then show ?thesis using Inr by (simp add: findImportsOnce_def)
  qed
  assume "findImportsOnce d1 c1 ps = Inl e1"
  then have "childFiles d1 c1 ps = Inl e1"
    by (auto simp: findImportsOnce_def split: sum.splits)
  from childFiles_race(2)[OF assms this] obtain e2 where e2: "childFiles d2 c2 ps = Inl e2"
    "e1 = e2 \<or> (\<exists>p \<in> set ps. \<exists>q \<in> set ps. p \<noteq> q
            \<and> scanParent d1 c1 p = Inl e1 \<and> scanParent d1 c1 q = Inl e2)" by blast
  have "findImportsOnce d2 c2 ps = Inl e2" using e2(1) by (simp add: findImportsOnce_def)
  then show "\<exists>e2. findImportsOnce d2 c2 ps = Inl e2 \<and>
        (e1 = e2 \<or> (\<exists>p \<in> set ps. \<exists>q \<in> set ps. p \<noteq> q
            \<and> scanParent d1 c1 p = Inl e1 \<and> scanParent d1 c1 q = Inl e2))"
    using e2(2) by blast
qed

lemma loop_race:
  assumes "map_of (files d1) = map_of (files d2)" and "resolveSync d1 = resolveSync d2"
    and "set (excludeGlobs c1) = set (excludeGlobs c2)"
    and "set (flatValues foundPaths) \<subseteq> (edges d1 c1 ^^ k) `` E"
  shows "(\<forall>r. findImports_loop d1 c1 allPaths foundPaths = Inr r \<longrightarrow>
            findImports_loop d2 c2 allPaths foundPaths = Inr r)
     \<and> (\<forall>e1. findImports_loop d1 c1 allPaths foundPaths = Inl e1 \<longrightarrow>
          (\<exists>e2. findImports_loop d2 c2 allPaths foundPaths = Inl e2 \<and>
             (e1 = e2 \<or> (\<exists>k p q. p \<noteq> q
                 \<and> p \<in> (edges d1 c1 ^^ k) `` E \<and> q \<in> (edges d1 c1 ^^ k) `` E
                 \<and> scanParent d1 c1 p = Inl e1 \<and> scanParent d1 c1 q = Inl e2))))"
  using assms
proof (induction d1 c1 allPaths foundPaths arbitrary: k rule: findImports_loop.induct)
  case (1 d cfg allPaths foundPaths)
  note agree = "1.prems"(1-3)
  show ?case
  proof (cases "foundPaths = []")
    case True
    then show ?thesis by (simp add: findImports_loop.simps)
  next
    case ne: False
    show ?thesis
    proof (cases "mergePaths allPaths foundPaths")
      case (Inl e)
      then show ?thesis using ne by (simp add: findImports_loop.simps)
    next
      case (Inr allPaths')
      show ?thesis
      proof (cases "findImportsOnce d cfg (new_Set (flatValues foundPaths))")
        case (Inl e)
        from findImportsOnce_race(2)[OF agree Inl] obtain e2
          where e2: "findImportsOnce d2 c2 (new_Set (flatValues foundPaths)) = Inl e2"
            "e = e2 \<or> (\<exists>p \<in> set (new_Set (flatValues foundPaths)).
                \<exists>q \<in> set (new_Set (flatValues foundPaths)). p \<noteq> q
                  \<and> scanParent d cfg p = Inl e \<and> scanParent d cfg q = Inl e2)"
          by blast
        have "e = e2 \<or> (\<exists>k p q. p \<noteq> q
            \<and> p \<in> (edges d cfg ^^ k) `` E \<and> q \<in> (edges d cfg ^^ k) `` E
            \<and> scanParent d cfg p = Inl e \<and> scanParent d cfg q = Inl e2)"
          using e2(2) "1.prems"(4) unfolding set_new_Set by blast
        then show ?thesis using ne Inr Inl e2(1)
          by (simp add: findImports_loop.simps[of _ _ allPaths foundPaths])
      next
        case found: (Inr foundPaths')
        have found2: "findImportsOnce d2 c2 (new_Set (flatValues foundPaths)) = Inr foundPaths'"
          using findImportsOnce_race(1)[OF agree] found by simp
        have "set (flatValues foundPaths') \<subseteq> (edges d cfg ^^ Suc k) `` E"
        proof
          fix y assume "y \<in> set (flatValues foundPaths')"
          then obtain q cs where q: "(q, cs) \<in> set foundPaths'" "y \<in> set cs"
            by (auto simp: flatValues_def)
          from findImportsOnce_found(2)[OF found q(1)]
          have "q \<in> set (flatValues foundPaths)" and "cs = children d cfg q" by simp_all
          then have "q \<in> (edges d cfg ^^ k) `` E" and "(q, y) \<in> edges d cfg"
            using "1.prems"(4) q(2) by (auto simp: edges_def)
          then show "y \<in> (edges d cfg ^^ Suc k) `` E" by (rule relpow_Image_Suc)
        qed
        from "1.IH"[OF ne Inr found agree this]
        show ?thesis using ne Inr found found2
          by (simp add: findImports_loop.simps[of _ _ allPaths foundPaths])
      qed
    qed
  qed
qed

lemma findImports_race:
  assumes "map_of (files d1) = map_of (files d2)" and "resolveSync d1 = resolveSync d2"
    and "set (excludeGlobs c1) = set (excludeGlobs c2)"
  shows "findImports d1 c1 paths = Inr r \<Longrightarrow> findImports d2 c2 paths = Inr r"
    and "findImports d1 c1 paths = Inl e1 \<Longrightarrow>
      \<exists>e2. findImports d2 c2 paths = Inl e2 \<and>
        (e1 = e2 \<or> (\<exists>k p q. p \<noteq> q
            \<and> p \<in> (edges d1 c1 ^^ k) `` set paths \<and> q \<in> (edges d1 c1 ^^ k) `` set paths
            \<and> scanParent d1 c1 p = Inl e1 \<and> scanParent d1 c1 q = Inl e2))"
proof -
  have a: "set (flatValues [([], new_Set paths)]) \<subseteq> (edges d1 c1 ^^ 0) `` set paths"
    by (auto simp: flatValues_def set_new_Set)
  note race = loop_race[OF assms a, of "[]", folded findImports_def]
  show "findImports d1 c1 paths = Inr r \<Longrightarrow> findImports d2 c2 paths = Inr r"
    using race by blast
  show "findImports d1 c1 paths = Inl e1 \<Longrightarrow>
      \<exists>e2. findImports d2 c2 paths = Inl e2 \<and>
        (e1 = e2 \<or> (\<exists>k p q. p \<noteq> q
            \<and> p \<in> (edges d1 c1 ^^ k) `` set paths \<and> q \<in> (edges d1 c1 ^^ k) `` set paths
            \<and> scanParent d1 c1 p = Inl e1 \<and> scanParent d1 c1 q = Inl e2))"
    using race by blast
qed

text \<open>
  Claim C9, as the code has it. Take two scans of the same entry paths that agree on the
  file tree as a mapping from paths to contents, on the resolver and on the set of
  exclusion globs, as two scans of an unchanged tree do. If one returns, the other returns
  the same list. If one fails with the "Cyclic import detected" error, the other fails with
  the same error. If one fails with another error, the other fails too, with the same
  error or with the error that the callback of a different file at the same depth threw:
  \<open>Promise.all\<close> reports whichever of the rejecting callbacks of a frontier rejects first,
  and that can differ from one scan to the next. The two scans have the same outcome when
  the callbacks reject in the same order.
\<close>

theorem C9_scan_deterministic:
  assumes "map_of (files d1) = map_of (files d2)" and "resolveSync d1 = resolveSync d2"
    and "set (excludeGlobs c1) = set (excludeGlobs c2)"
  shows "(\<forall>r. findImports d1 c1 paths = Inr r \<longleftrightarrow> findImports d2 c2 paths = Inr r)
     \<and> (\<forall>p cs. findImports d1 c1 paths = Inl (CyclicImport p cs)
            \<longleftrightarrow> findImports d2 c2 paths = Inl (CyclicImport p cs))
     \<and> (\<forall>e1. findImports d1 c1 paths = Inl e1 \<longrightarrow>
          (\<exists>e2. findImports d2 c2 paths = Inl e2 \<and>
             (e1 = e2 \<or> (\<exists>k p q. p \<noteq> q
                 \<and> p \<in> (edges d1 c1 ^^ k) `` set paths \<and> q \<in> (edges d1 c1 ^^ k) `` set paths
                 \<and> scanParent d1 c1 p = Inl e1 \<and> scanParent d1 c1 q = Inl e2))))
     \<and> (rejectTime d1 = rejectTime d2 \<longrightarrow> findImports d1 c1 paths = findImports d2 c2 paths)"
proof (intro conjI allI impI)
  note sym = assms(1)[symmetric] assms(2)[symmetric] assms(3)[symmetric]
  show "findImports d1 c1 paths = Inr r \<longleftrightarrow> findImports d2 c2 paths = Inr r" for r
    using findImports_race(1)[OF assms] findImports_race(1)[OF sym] by blast
  have cyc: "findImports d2 c2 paths = Inl (CyclicImport p cs)"
    if "findImports d1 c1 paths = Inl (CyclicImport p cs)"
      and "map_of (files d1) = map_of (files d2)" and "resolveSync d1 = resolveSync d2"
      and "set (excludeGlobs c1) = set (excludeGlobs c2)" for d1 d2 :: world and c1 c2 p cs
    using findImports_race(2)[OF that(2-4) that(1)] scanParent_error_kind[of d1 c1]
    by fastforce
  show "findImports d1 c1 paths = Inl (CyclicImport p cs)
      \<longleftrightarrow> findImports d2 c2 paths = Inl (CyclicImport p cs)" for p cs
    using cyc[OF _ assms] cyc[OF _ sym] by blast
  show "\<exists>e2. findImports d2 c2 paths = Inl e2 \<and>
             (e1 = e2 \<or> (\<exists>k p q. p \<noteq> q
                 \<and> p \<in> (edges d1 c1 ^^ k) `` set paths \<and> q \<in> (edges d1 c1 ^^ k) `` set paths
                 \<and> scanParent d1 c1 p = Inl e1 \<and> scanParent d1 c1 q = Inl e2))"
    if "findImports d1 c1 paths = Inl e1" for e1
    using findImports_race(2)[OF assms that] .
  show "findImports d1 c1 paths = findImports d2 c2 paths" if "rejectTime d1 = rejectTime d2"
    unfolding findImports_def by (rule findImports_loop_cong[OF assms that])
qed

text \<open>
  The same project with its files and its globs listed in another order gives the same
  result. The two files with an import that does not resolve make the scan fail whichever
  of them the file system answers for first.
\<close>

theorem C9_scan_deterministic_witness:
  "findImports project \<lparr>excludeGlobs = [node_modules_glob, json_glob]\<rparr> [''/a.ts'']
     = Inr [''/a.ts'', ''/b.ts'']
   \<and> findImports project_relisted \<lparr>excludeGlobs = [json_glob, node_modules_glob, json_glob]\<rparr> [''/a.ts'']
     = Inr [''/a.ts'', ''/b.ts'']
   \<and> findImports unresolved no_exclude [''/a.ts'', ''/b.ts''] = Inl (ResolveError ''/nope1.ts'' ''/a.ts'')
   \<and> (\<exists>e2. findImports unresolved_b_first no_exclude [''/a.ts'', ''/b.ts''] = Inl e2)"
proof -
  have 1: "map_of (files project) = map_of (files project_relisted)"
    by (rule ext) (simp add: project_def project_relisted_def)
  have 2: "resolveSync project = resolveSync project_relisted"
    by (simp add: project_def project_relisted_def)
  have 3: "set (excludeGlobs \<lparr>excludeGlobs = [node_modules_glob, json_glob]\<rparr>)
      = set (excludeGlobs \<lparr>excludeGlobs = [json_glob, node_modules_glob, json_glob]\<rparr>)"
    by auto
  have 4: "findImports project \<lparr>excludeGlobs = [node_modules_glob, json_glob]\<rparr> [''/a.ts'']
     = Inr [''/a.ts'', ''/b.ts'']"
    by (simp add: scan_eval project_def node_modules_glob_def json_glob_def)
  have 5: "map_of (files unresolved) = map_of (files unresolved_b_first)"
    "resolveSync unresolved = resolveSync unresolved_b_first"
    by (simp_all add: unresolved_b_first_def)
  have 6: "findImports unresolved no_exclude [''/a.ts'', ''/b.ts''] = Inl (ResolveError ''/nope1.ts'' ''/a.ts'')"
    by (simp add: scan_eval unresolved_def no_exclude_def)
  from C9_scan_deterministic[OF 1 2 3, of "[''/a.ts'']"] 4
  have a: "findImports project_relisted \<lparr>excludeGlobs = [json_glob, node_modules_glob, json_glob]\<rparr> [''/a.ts'']
     = Inr [''/a.ts'', ''/b.ts'']" by blast
  from C9_scan_deterministic[OF 5 refl, of no_exclude "[''/a.ts'', ''/b.ts'']"] 6
  have b: "\<exists>e2. findImports unresolved_b_first no_exclude [''/a.ts'', ''/b.ts''] = Inl e2" by blast
  from 4 6 a b show ?thesis by simp
qed

text \<open>
  Claim C9 as stated fails. \<open>/a.ts\<close> and \<open>/b.ts\<close> each import a module that does not
  resolve. On the same tree, the scan of the two fails with the error for \<open>/a.ts\<close> when
  the file system answers for both at the same time, and with the error for \<open>/b.ts\<close> when
  it answers for \<open>/b.ts\<close> first.
\<close>

theorem C9_counterexample:
  "files unresolved_b_first = files unresolved
   \<and> resolveSync unresolved_b_first = resolveSync unresolved
   \<and> findImports unresolved no_exclude [''/a.ts'', ''/b.ts''] = Inl (ResolveError ''/nope1.ts'' ''/a.ts'')
   \<and> findImports unresolved_b_first no_exclude [''/a.ts'', ''/b.ts'']
       = Inl (ResolveError ''/nope2.ts'' ''/b.ts'')"
proof -
  have "findImports unresolved no_exclude [''/a.ts'', ''/b.ts''] = Inl (ResolveError ''/nope1.ts'' ''/a.ts'')"
    by (simp add: scan_eval unresolved_def no_exclude_def)
  moreover have "findImports unresolved_b_first no_exclude [''/a.ts'', ''/b.ts'']
       = Inl (ResolveError ''/nope2.ts'' ''/b.ts'')"
    by (simp add: scan_eval unresolved_b_first_def unresolved_def no_exclude_def)
  ultimately show ?thesis by (simp add: unresolved_b_first_def)
qed

subsection \<open>Entry paths that are not scanned\<close>

lemma childFiles_skipped:
  "\<forall>p \<in> set ps. scanParent d cfg p = Inr None \<Longrightarrow> childFiles d cfg ps = Inr []"
  by (induction ps) (auto simp: childFiles_Inr)

lemma scanParent_skips:
  "\<not> extRegex p \<or> \<not> file_exists d p \<Longrightarrow> scanParent d cfg p = Inr None"
  by (auto simp: scanParent_def file_exists_def)

lemma findImports_skips_entries:
  assumes "\<forall>p \<in> set paths. \<not> extRegex p \<or> \<not> file_exists d p"
  shows "findImports d cfg paths = Inr (new_Set paths)"
proof -
  have "childFiles d cfg (new_Set paths) = Inr []"
    using assms by (intro childFiles_skipped) (auto simp: set_new_Set scanParent_skips)
  then have "findImportsOnce d cfg (new_Set paths) = Inr []"
    by (simp add: findImportsOnce_def new_PathsMap_def)
  moreover have "new_Set (new_Set paths) = new_Set paths"
    by (rule new_Set_distinct) (rule distinct_new_Set)
  ultimately show ?thesis
    by (simp add: findImports_unfold findImports_loop.simps flatValues_def)
qed

lemma recorded_flatValues: "snd ` recorded m \<subseteq> set (flatValues m)"
proof
  fix c assume "c \<in> snd ` recorded m"
  then obtain p cs where "Map_get m p = Some cs" "c \<in> set cs"
    by (auto simp: recorded_def)
  moreover have "Map_get m p = Some cs \<Longrightarrow> (p, cs) \<in> set m"
    by (induction m) (auto split: if_splits)
  ultimately show "c \<in> set (flatValues m)" by (force simp: flatValues_def)
qed

lemma loop_result_contains:
  "findImports_loop d cfg allPaths foundPaths = Inr r \<Longrightarrow>
   snd ` recorded allPaths \<union> snd ` listed foundPaths \<subseteq> set r"
proof (induction d cfg allPaths foundPaths rule: findImports_loop.induct)
  case (1 d cfg allPaths foundPaths)
  show ?case
  proof (cases "foundPaths = []")
    case True
    then have "r = new_Set (flatValues allPaths)"
      using "1.prems" by (simp add: findImports_loop.simps)
    then show ?thesis using True recorded_flatValues[of allPaths]
      by (auto simp: set_new_Set listed_def)
  next
    case ne: False
    then obtain allPaths' foundPaths' where m: "mergePaths allPaths foundPaths = Inr allPaths'"
      and f: "findImportsOnce d cfg (new_Set (flatValues foundPaths)) = Inr foundPaths'"
      and l: "findImports_loop d cfg allPaths' foundPaths' = Inr r"
      using "1.prems" by (auto simp: findImports_loop.simps[of _ _ allPaths foundPaths] split: sum.splits)
    have "snd ` recorded allPaths' \<subseteq> set r" using "1.IH"[OF ne m f l] by blast
    moreover have "recorded allPaths' = recorded allPaths \<union> listed foundPaths"
      using mergePaths_recorded[OF m] by simp
    ultimately show ?thesis by blast
  qed
qed

lemma findImports_includes_entries:
  assumes "findImports d cfg paths = Inr r"
  shows "set paths \<subseteq> set r"
proof -
  have "snd ` listed [([], new_Set paths)] \<subseteq> set r"
    using loop_result_contains[OF assms[unfolded findImports_def]] by blast
  moreover have "snd ` listed [([], new_Set paths)] = set paths"
    by (force simp: listed_def set_new_Set)
  ultimately show ?thesis by simp
qed

subsection \<open>What a scan returns\<close>

lemma set_flatValues: "set (flatValues m) = snd ` listed m"
  by (force simp: flatValues_def listed_def)

lemma Map_get_None: "Map_get m k = None \<longleftrightarrow> k \<notin> fst ` set m"
  by (induction m) (auto split: if_splits)

lemma keys_Map_set:
  "map fst (Map_set m k v) = (if k \<in> fst ` set m then map fst m else map fst m @ [k])"
  by (induction m) force+

lemma flatValues_Map_set_fresh:
  "Map_get m k = None \<Longrightarrow> set (flatValues (Map_set m k v)) = set (flatValues m) \<union> set v"
  by (simp add: Map_get_None Map_set_fresh flatValues_def)

lemma flatValues_Map_set_grow:
  "Map_get m k = Some old \<Longrightarrow> distinct (map fst m) \<Longrightarrow> set old \<subseteq> set v \<Longrightarrow>
   set (flatValues (Map_set m k v)) = set (flatValues m) \<union> set v"
proof (induction m)
  case Nil
  then show ?case by simp
next
  case (Cons kv m)
  obtain k' v' where kv: "kv = (k', v')" by (cases kv)
  show ?case
  proof (cases "k' = k")
    case True
    then show ?thesis using Cons.prems by (auto simp: kv flatValues_def)
  next
    case False
    then have "set (flatValues (Map_set m k v)) = set (flatValues m) \<union> set v"
      using Cons by (simp add: kv)
    then show ?thesis using False by (auto simp: kv flatValues_def)
  qed
qed

lemma mergePaths_flatValues:
  "mergePaths allPaths foundPaths = Inr allPaths' \<Longrightarrow> distinct (map fst allPaths) \<Longrightarrow>
   distinct (map fst allPaths') \<and>
   set (flatValues allPaths') = set (flatValues allPaths) \<union> set (flatValues foundPaths)"
proof (induction foundPaths arbitrary: allPaths)
  case Nil
  then show ?case by (simp add: flatValues_def)
next
  case (Cons kv rest)
  obtain p cs where kv: "kv = (p, cs)" by (cases kv)
  have fl: "set (flatValues (kv # rest)) = set cs \<union> set (flatValues rest)"
    by (simp add: kv flatValues_def)
  show ?case
  proof (cases "Map_get allPaths p")
    case None
    then have m: "mergePaths (Map_set allPaths p cs) rest = Inr allPaths'"
      using Cons.prems by (simp add: kv)
    have d: "distinct (map fst (Map_set allPaths p cs))"
      using Cons.prems(2) by (simp add: keys_Map_set)
    from Cons.IH[OF m d] flatValues_Map_set_fresh[OF None, of cs] show ?thesis
      unfolding fl by auto
  next
    case (Some old)
    then have m: "mergePaths (Map_set allPaths p (union old cs)) rest = Inr allPaths'"
      using Cons.prems by (auto simp: kv split: if_splits)
    have d: "distinct (map fst (Map_set allPaths p (union old cs)))"
      using Cons.prems(2) by (simp add: keys_Map_set)
    have "(p, old) \<in> set allPaths" using Some by (induction allPaths) (auto split: if_splits)
    then have "set old \<subseteq> set (flatValues allPaths)" by (force simp: flatValues_def)
    moreover have "set (flatValues (Map_set allPaths p (union old cs)))
        = set (flatValues allPaths) \<union> set (union old cs)"
      using Some Cons.prems(2) by (rule flatValues_Map_set_grow) (simp add: set_union)
    ultimately show ?thesis using Cons.IH[OF m d] unfolding fl by (auto simp: set_union)
  qed
qed

lemma loop_result_within:
  "findImports_loop d cfg allPaths foundPaths = Inr r \<Longrightarrow> distinct (map fst allPaths) \<Longrightarrow>
   set (flatValues allPaths) \<union> set (flatValues foundPaths) \<subseteq> X \<Longrightarrow>
   (\<And>x. x \<in> X \<Longrightarrow> set (children d cfg x) \<subseteq> X) \<Longrightarrow> set r \<subseteq> X"
proof (induction d cfg allPaths foundPaths rule: findImports_loop.induct)
  case (1 d cfg allPaths foundPaths)
  show ?case
  proof (cases "foundPaths = []")
    case True
    then have "r = new_Set (flatValues allPaths)"
      using "1.prems"(1) by (simp add: findImports_loop.simps)
    then show ?thesis using "1.prems"(3) by (simp add: set_new_Set)
  next
    case ne: False
    then obtain allPaths' foundPaths' where m: "mergePaths allPaths foundPaths = Inr allPaths'"
      and f: "findImportsOnce d cfg (new_Set (flatValues foundPaths)) = Inr foundPaths'"
      and l: "findImports_loop d cfg allPaths' foundPaths' = Inr r"
      using "1.prems"(1)
      by (auto simp: findImports_loop.simps[of _ _ allPaths foundPaths] split: sum.splits)
    note mf = mergePaths_flatValues[OF m "1.prems"(2)]
    have cf: "childFiles d cfg (new_Set (flatValues foundPaths)) = Inr foundPaths'"
      using f by (rule findImportsOnce_childFiles) (rule distinct_new_Set)
    have "set (flatValues foundPaths') \<subseteq> X"
    proof
      fix y assume "y \<in> set (flatValues foundPaths')"
      then obtain q cs where q: "(q, cs) \<in> set foundPaths'" "y \<in> set cs"
        by (auto simp: flatValues_def)
      from childFiles_listed[OF cf q(1)] have "q \<in> set (flatValues foundPaths)"
        and "scanParent d cfg q = Inr (Some (q, cs))" by (simp_all add: set_new_Set)
      then have "q \<in> X" and "y \<in> set (children d cfg q)"
        using "1.prems"(3) q(2) by (auto simp: children_def)
      then show "y \<in> X" using "1.prems"(4) by blast
    qed
    then have "set (flatValues allPaths') \<union> set (flatValues foundPaths') \<subseteq> X"
      using mf "1.prems"(3) by auto
    then show ?thesis using "1.IH"[OF ne m f l] mf "1.prems"(4) by blast
  qed
qed

lemma loop_result_closed:
  "findImports_loop d cfg allPaths foundPaths = Inr r \<Longrightarrow> distinct (map fst allPaths) \<Longrightarrow>
   (\<And>x. x \<in> set (flatValues allPaths) \<Longrightarrow>
      set (children d cfg x) \<subseteq> set (flatValues allPaths) \<union> set (flatValues foundPaths)) \<Longrightarrow>
   x \<in> set r \<Longrightarrow> set (children d cfg x) \<subseteq> set r"
proof (induction d cfg allPaths foundPaths rule: findImports_loop.induct)
  case (1 d cfg allPaths foundPaths)
  show ?case
  proof (cases "foundPaths = []")
    case True
    then have "r = new_Set (flatValues allPaths)"
      using "1.prems"(1) by (simp add: findImports_loop.simps)
    then show ?thesis using "1.prems"(3)[of x] "1.prems"(4) True
      by (simp add: set_new_Set flatValues_def)
  next
    case ne: False
    then obtain allPaths' foundPaths' where m: "mergePaths allPaths foundPaths = Inr allPaths'"
      and f: "findImportsOnce d cfg (new_Set (flatValues foundPaths)) = Inr foundPaths'"
      and l: "findImports_loop d cfg allPaths' foundPaths' = Inr r"
      using "1.prems"(1)
      by (auto simp: findImports_loop.simps[of _ _ allPaths foundPaths] split: sum.splits)
    note mf = mergePaths_flatValues[OF m "1.prems"(2)]
    have cf: "childFiles d cfg (new_Set (flatValues foundPaths)) = Inr foundPaths'"
      using f by (rule findImportsOnce_childFiles) (rule distinct_new_Set)
    have step: "set (children d cfg z) \<subseteq> set (flatValues allPaths') \<union> set (flatValues foundPaths')"
      if z: "z \<in> set (flatValues allPaths')" for z
    proof (cases "z \<in> set (flatValues foundPaths)")
      case False
      then have "z \<in> set (flatValues allPaths)" using z mf by auto
      then show ?thesis using "1.prems"(3)[of z] mf by auto
    next
      case True
      show ?thesis
      proof
        fix y assume "y \<in> set (children d cfg z)"
        then have "(z, y) \<in> edges d cfg" by (simp add: edges_def)
        then obtain cs where cs: "scanParent d cfg z = Inr (Some (z, cs))" "y \<in> set cs"
          using edge_scanParent by blast
        have "(z, cs) \<in> set foundPaths'"
          using childFiles_member[OF cf _ cs(1)] True by (simp add: set_new_Set)
        then have "y \<in> set (flatValues foundPaths')" using cs(2) by (force simp: flatValues_def)
        then show "y \<in> set (flatValues allPaths') \<union> set (flatValues foundPaths')" by simp
      qed
    qed
    show ?thesis using "1.IH"[OF ne m f l] mf step "1.prems"(4) by blast
  qed
qed

theorem findImports_returns_reachable:
  assumes "findImports d cfg paths = Inr r"
  shows "set r = (edges d cfg)\<^sup>* `` set paths"
proof
  have l: "findImports_loop d cfg [] [([], new_Set paths)] = Inr r"
    using assms by (simp add: findImports_def)
  show "set r \<subseteq> (edges d cfg)\<^sup>* `` set paths"
  proof (rule loop_result_within[OF l])
    show "distinct (map fst ([] :: PathsMap))" by simp
    show "set (flatValues []) \<union> set (flatValues [([], new_Set paths)]) \<subseteq> (edges d cfg)\<^sup>* `` set paths"
      by (auto simp: flatValues_def set_new_Set)
    show "set (children d cfg x) \<subseteq> (edges d cfg)\<^sup>* `` set paths"
      if "x \<in> (edges d cfg)\<^sup>* `` set paths" for x
    proof
      fix y assume "y \<in> set (children d cfg x)"
      then have "(x, y) \<in> edges d cfg" by (simp add: edges_def)
      then show "y \<in> (edges d cfg)\<^sup>* `` set paths" using that by (auto intro: rtrancl_into_rtrancl)
    qed
  qed
  have closed: "set (children d cfg x) \<subseteq> set r" if "x \<in> set r" for x
    using l _ _ that by (rule loop_result_closed) (simp_all add: flatValues_def)
  have entries: "set paths \<subseteq> set r" using assms by (rule findImports_includes_entries)
  show "(edges d cfg)\<^sup>* `` set paths \<subseteq> set r"
  proof
    fix y assume "y \<in> (edges d cfg)\<^sup>* `` set paths"
    then obtain e where e: "e \<in> set paths" "(e, y) \<in> (edges d cfg)\<^sup>*" by blast
    from e(2) show "y \<in> set r"
    proof (induction rule: rtrancl_induct)
      case base
      then show ?case using e(1) entries by blast
    next
      case (step y z)
      then have "z \<in> set (children d cfg y)" by (simp add: edges_def)
      then show ?case using closed[OF step.IH] by blast
    qed
  qed
qed

subsection \<open>An entry path that is skipped\<close>

lemma childFiles_removeAll:
  assumes "scanParent d cfg p = Inr None"
  shows "childFiles d cfg (removeAll p ps) = childFiles d cfg ps"
proof -
  have "rejections d cfg (removeAll p ps) = rejections d cfg ps"
    using assms by (induction ps) (auto split: sum.splits)
  moreover have "fulfilled d cfg (removeAll p ps) = fulfilled d cfg ps"
    using assms by (induction ps) (auto split: sum.splits option.splits)
  ultimately show ?thesis by (simp add: childFiles_def split: list.splits)
qed

lemma foldl_Set_add_removeAll:
  "removeAll p (foldl Set_add a xs) = foldl Set_add (removeAll p a) (removeAll p xs)"
proof (induction xs arbitrary: a)
  case Nil
  then show ?case by simp
next
  case (Cons x xs)
  have "removeAll p (Set_add a x) = (if x = p then removeAll p a else Set_add (removeAll p a) x)"
    by (auto simp: Set_add_def)
  then show ?case using Cons.IH[of "Set_add a x"] by simp
qed

lemma new_Set_removeAll: "new_Set (removeAll p xs) = removeAll p (new_Set xs)"
  by (simp add: new_Set_def foldl_Set_add_removeAll)

lemma findImportsOnce_removeAll:
  "scanParent d cfg p = Inr None \<Longrightarrow>
   findImportsOnce d cfg (new_Set (removeAll p paths)) = findImportsOnce d cfg (new_Set paths)"
  by (simp add: findImportsOnce_def new_Set_removeAll childFiles_removeAll)

text \<open>The sentinel key is never a key of a later frontier, so its entry stays at the head of \<open>allPaths\<close>.\<close>

lemma mergePaths_sentinel:
  "[] \<notin> fst ` set foundPaths \<Longrightarrow>
   mergePaths (([], v) # rest) foundPaths =
     (case mergePaths rest foundPaths of Inl e \<Rightarrow> Inl e | Inr rest' \<Rightarrow> Inr (([], v) # rest'))"
proof (induction foundPaths arbitrary: rest)
  case Nil
  then show ?case by simp
next
  case (Cons kv foundPaths)
  obtain p cs where kv: "kv = (p, cs)" by (cases kv)
  then have p: "p \<noteq> []" and rest: "[] \<notin> fst ` set foundPaths" using Cons.prems by auto
  show ?case
  proof (cases "Map_get rest p")
    case None
    then show ?thesis using p Cons.IH[OF rest, of "Map_set rest p cs"] by (simp add: kv)
  next
    case (Some old)
    then show ?thesis using p Cons.IH[OF rest, of "Map_set rest p (union old cs)"]
      by (simp add: kv)
  qed
qed

lemma loop_sentinel:
  "[] \<notin> fst ` set foundPaths \<Longrightarrow>
   (\<exists>e. \<forall>v. findImports_loop d cfg (([], v) # rest) foundPaths = Inl e)
   \<or> (\<exists>fr. \<forall>v. findImports_loop d cfg (([], v) # rest) foundPaths = Inr (new_Set (v @ fr)))"
proof (induction d cfg rest foundPaths rule: findImports_loop.induct)
  case (1 d cfg rest foundPaths)
  note ms = mergePaths_sentinel[OF "1.prems", of _ rest]
  show ?case
  proof (cases "foundPaths = []")
    case True
    then have "\<forall>v. findImports_loop d cfg (([], v) # rest) foundPaths
        = Inr (new_Set (v @ flatValues rest))"
      by (simp add: findImports_loop.simps flatValues_def)
    then show ?thesis by blast
  next
    case ne: False
    show ?thesis
    proof (cases "mergePaths rest foundPaths")
      case (Inl e)
      then have "\<forall>v. findImports_loop d cfg (([], v) # rest) foundPaths = Inl e"
        using ne ms by (simp add: findImports_loop.simps[of _ _ "_ # rest"])
      then show ?thesis by blast
    next
      case (Inr rest')
      show ?thesis
      proof (cases "findImportsOnce d cfg (new_Set (flatValues foundPaths))")
        case (Inl e)
        then have "\<forall>v. findImports_loop d cfg (([], v) # rest) foundPaths = Inl e"
          using ne ms Inr by (simp add: findImports_loop.simps[of _ _ "_ # rest"])
        then show ?thesis by blast
      next
        case found: (Inr foundPaths')
        have step: "findImports_loop d cfg (([], v) # rest) foundPaths
            = findImports_loop d cfg (([], v) # rest') foundPaths'" for v
          using ne ms Inr found by (simp add: findImports_loop.simps[of _ _ "_ # rest"])
        from "1.IH"[OF ne Inr found findImportsOnce_keys[OF found]] show ?thesis
          unfolding step .
      qed
    qed
  qed
qed

lemma findImports_skips_one:
  assumes "p \<in> set paths" and "\<not> extRegex p \<or> \<not> file_exists d p"
  shows "(\<forall>e. findImports d cfg paths = Inl e \<longleftrightarrow> findImports d cfg (removeAll p paths) = Inl e)
     \<and> (\<forall>r. findImports d cfg paths = Inr r \<longrightarrow>
          (\<exists>r'. findImports d cfg (removeAll p paths) = Inr r' \<and> set r = insert p (set r')))"
proof -
  have skip: "scanParent d cfg p = Inr None" using assms(2) by (rule scanParent_skips)
  note once = findImportsOnce_removeAll[OF skip, of paths]
  show ?thesis
  proof (cases "findImportsOnce d cfg (new_Set paths)")
    case (Inl e)
    then show ?thesis using once by (simp add: findImports_unfold)
  next
    case (Inr found)
    have a: "findImports d cfg paths = findImports_loop d cfg [([], new_Set paths)] found"
      using Inr by (simp add: findImports_unfold)
    have b: "findImports d cfg (removeAll p paths)
        = findImports_loop d cfg [([], new_Set (removeAll p paths))] found"
      using Inr once by (simp add: findImports_unfold)
    from loop_sentinel[OF findImportsOnce_keys[OF Inr], of d cfg "[]"] show ?thesis
    proof
      assume "\<exists>e. \<forall>v. findImports_loop d cfg [([], v)] found = Inl e"
      then show ?thesis unfolding a b by auto
    next
      assume "\<exists>fr. \<forall>v. findImports_loop d cfg [([], v)] found = Inr (new_Set (v @ fr))"
      then obtain fr where fr: "\<And>v. findImports_loop d cfg [([], v)] found = Inr (new_Set (v @ fr))"
        by blast
      have "set (new_Set (new_Set paths @ fr))
          = insert p (set (new_Set (new_Set (removeAll p paths) @ fr)))"
        using assms(1) by (auto simp: set_new_Set)
      then show ?thesis unfolding a b fr by simp
    qed
  qed
qed

section \<open>Properties of the watchers\<close>

subsection \<open>What closing and subscribing leave alone\<close>

lemma events_of_append: "events_of (xs @ ys) = events_of xs @ events_of ys"
  by (induction xs rule: events_of.induct) simp_all

lemma closeAll_fields [simp]:
  "fullPaths (foldl (\<lambda>s h. FSWatcher_close h s) s hs) = fullPaths s"
  "scanConfig (foldl (\<lambda>s h. FSWatcher_close h s) s hs) = scanConfig s"
  "watchers (foldl (\<lambda>s h. FSWatcher_close h s) s hs) = watchers s"
  "state (foldl (\<lambda>s h. FSWatcher_close h s) s hs) = state s"
  "closeListeners (foldl (\<lambda>s h. FSWatcher_close h s) s hs) = closeListeners s"
  "buildOnWatch (foldl (\<lambda>s h. FSWatcher_close h s) s hs) = buildOnWatch s"
  "buildOnChange (foldl (\<lambda>s h. FSWatcher_close h s) s hs) = buildOnChange s"
  "rescanOnBuild (foldl (\<lambda>s h. FSWatcher_close h s) s hs) = rescanOnBuild s"
  "buildConfig (foldl (\<lambda>s h. FSWatcher_close h s) s hs) = buildConfig s"
  "length (heap (foldl (\<lambda>s h. FSWatcher_close h s) s hs)) = length (heap s)"
  "events_of (trace (foldl (\<lambda>s h. FSWatcher_close h s) s hs)) = events_of (trace s)"
  by (induction hs arbitrary: s)
    (simp_all add: FSWatcher_close_def log_effect_def events_of_append)

lemma closeWatchers_fields [simp]:
  "fullPaths (closeWatchers s) = fullPaths s"
  "scanConfig (closeWatchers s) = scanConfig s"
  "watchers (closeWatchers s) = watchers s"
  "state (closeWatchers s) = state s"
  "closeListeners (closeWatchers s) = closeListeners s"
  "buildOnWatch (closeWatchers s) = buildOnWatch s"
  "buildOnChange (closeWatchers s) = buildOnChange s"
  "rescanOnBuild (closeWatchers s) = rescanOnBuild s"
  "buildConfig (closeWatchers s) = buildConfig s"
  "length (heap (closeWatchers s)) = length (heap s)"
  "events_of (trace (closeWatchers s)) = events_of (trace s)"
  by (simp_all add: closeWatchers_def)

lemma startScan_fields [simp]:
  "fullPaths (startScan s) = fullPaths s"
  "scanConfig (startScan s) = scanConfig s"
  "watchers (startScan s) = watchers s"
  "state (startScan s) = Watching"
  "closeListeners (startScan s) = closeListeners s"
  "buildOnChange (startScan s) = buildOnChange s"
  "rescanOnBuild (startScan s) = rescanOnBuild s"
  "buildConfig (startScan s) = buildConfig s"
  "length (heap (startScan s)) = length (heap s)"
  "events_of (trace (startScan s)) = events_of (trace s)"
  by (simp_all add: startScan_def log_effect_def events_of_append)

lemma fs_watch_fields [simp]:
  "fullPaths (snd (fs_watch d p s)) = fullPaths s"
  "scanConfig (snd (fs_watch d p s)) = scanConfig s"
  "watchers (snd (fs_watch d p s)) = watchers s"
  "state (snd (fs_watch d p s)) = state s"
  "closeListeners (snd (fs_watch d p s)) = closeListeners s"
  "buildOnWatch (snd (fs_watch d p s)) = buildOnWatch s"
  "buildOnChange (snd (fs_watch d p s)) = buildOnChange s"
  "rescanOnBuild (snd (fs_watch d p s)) = rescanOnBuild s"
  "buildConfig (snd (fs_watch d p s)) = buildConfig s"
  "events_of (trace (snd (fs_watch d p s))) = events_of (trace s)"
  by (simp_all add: fs_watch_def log_effect_def events_of_append)

lemma watchAll_snd:
  "snd (watchAll d (p # ps) s) =
     (if file_exists d p then snd (watchAll d ps (snd (fs_watch d p s))) else s)"
  by (simp add: fs_watch_def split: prod.splits sum.splits)

lemma watchAll_fields [simp]:
  "fullPaths (snd (watchAll d ps s)) = fullPaths s"
  "scanConfig (snd (watchAll d ps s)) = scanConfig s"
  "watchers (snd (watchAll d ps s)) = watchers s"
  "state (snd (watchAll d ps s)) = state s"
  "closeListeners (snd (watchAll d ps s)) = closeListeners s"
  "buildOnWatch (snd (watchAll d ps s)) = buildOnWatch s"
  "buildOnChange (snd (watchAll d ps s)) = buildOnChange s"
  "rescanOnBuild (snd (watchAll d ps s)) = rescanOnBuild s"
  "buildConfig (snd (watchAll d ps s)) = buildConfig s"
  "events_of (trace (snd (watchAll d ps s))) = events_of (trace s)"
  by (induction ps arbitrary: s) (simp_all add: watchAll_snd del: watchAll.simps(2))

subsection \<open>A closed watcher\<close>

text \<open>
  Claim C8. On a watcher whose state is \<open>Closed\<close>, \<open>watch\<close> and \<open>rescan\<close> reject with the
  closed-watcher error and leave the watcher, the handles and the trace as they were;
  \<open>close\<close> is the one call that is ignored without an error.
\<close>

theorem C8_closed_rejects:
  assumes "state s = Closed"
  shows "watch d s = (Inl ClosedWatcher, s) \<and> rescan d s = (Inl ClosedWatcher, s) \<and> close s = s"
  using assms by (simp add: watch_def rescan.simps close_def)

theorem C8_closed_rejects_witness:
  "state (close (new_DependencyWatcher [''/a.ts''] [])) = Closed
   \<and> watch diamond (close (new_DependencyWatcher [''/a.ts''] []))
       = (Inl ClosedWatcher, close (new_DependencyWatcher [''/a.ts''] []))
   \<and> rescan diamond (close (new_DependencyWatcher [''/a.ts''] []))
       = (Inl ClosedWatcher, close (new_DependencyWatcher [''/a.ts''] []))
   \<and> close (close (new_DependencyWatcher [''/a.ts''] [])) = close (new_DependencyWatcher [''/a.ts''] [])"
proof -
  have c: "state (close (new_DependencyWatcher [''/a.ts''] [])) = Closed"
    by (simp add: watcher_eval)
  from C8_closed_rejects[OF c, of diamond] c show ?thesis by simp
qed

subsection \<open>The state after a call\<close>

lemma not_Closed_after:
  "state s \<noteq> Closed \<longrightarrow> state (snd (rescan d s)) = Watching"
  "state s = Watching \<longrightarrow> state (emit_watch d paths s) = Watching"
  "state s = Watching \<longrightarrow> state (buildListener d s) = Watching"
  "state s = Watching \<longrightarrow> state (emit_build d buildOutput s) = Watching"
proof (induction d s and d paths s and d s and d buildOutput s
    rule: rescan_emit_watch_buildListener_emit_build.induct)
  case (1 d s)
  show ?case
  proof
    assume nc: "state s \<noteq> Closed"
    show "state (snd (rescan d s)) = Watching"
    proof (cases "findImports d (scanConfig s) (fullPaths s)")
      case (Inl e)
      then show ?thesis using nc by (simp add: rescan.simps)
    next
      case (Inr paths)
      obtain r s' where w: "watchAll d paths (startScan s) = (r, s')"
        by (cases "watchAll d paths (startScan s)")
      have "s' = snd (watchAll d paths (startScan s))" using w by simp
      then have st: "state s' = Watching" by simp
      show ?thesis
      proof (cases r)
        case (Inl e)
        then show ?thesis using nc Inr w st by (simp add: rescan.simps)
      next
        case hs: (Inr hs)
        have "state (emit_watch d paths (s'\<lparr>watchers := hs, closeListeners := Suc (closeListeners s')\<rparr>)) = Watching"
          using "1.IH"[OF nc Inr w[symmetric] hs] st by simp
        then show ?thesis using nc Inr w hs by (simp add: rescan.simps)
      qed
    qed
  qed
next
  case (2 d paths s)
  then show ?case by (simp add: emit_watch.simps log_effect_def)
next
  case (3 d s)
  then show ?case by (simp add: buildListener.simps log_effect_def)
next
  case (4 d buildOutput s)
  then show ?case by (simp add: emit_build.simps log_effect_def)
qed

text \<open>
  Claim C7. A second \<open>watch\<close> right after a first one changes nothing: the watcher, the
  handles and the trace (hence scans, subscriptions and events) are those left by the
  first call, whatever the disk has become. Unless the watcher was closed, in which case
  both calls reject (claim C8), the second call returns \<open>undefined\<close>.
\<close>

theorem C7_second_watch_is_noop:
  "snd (watch d2 (snd (watch d1 s))) = snd (watch d1 s) \<and>
   (state s \<noteq> Closed \<longrightarrow> fst (watch d2 (snd (watch d1 s))) = Inr None)"
proof (cases "state s = Closed")
  case True
  then show ?thesis by (simp add: watch_def rescan.simps)
next
  case False
  have "state (snd (watch d1 s)) = Watching"
  proof (cases "state s = Watching")
    case True
    then show ?thesis by (simp add: watch_def)
  next
    case nw: False
    have "state (snd (rescan d1 s)) = Watching" using not_Closed_after(1) False by blast
    then show ?thesis using nw by (cases "rescan d1 s") (auto simp: watch_def split: sum.splits)
  qed
  then show ?thesis by (simp add: watch_def)
qed

theorem C7_second_watch_is_noop_witness:
  "state (new_DependencyWatcher [''/a.ts''] []) \<noteq> Closed
   \<and> fst (watch ab (new_DependencyWatcher [''/a.ts''] [])) = Inr (Some [''/a.ts'', ''/b.ts''])
   \<and> fst (watch ab (snd (watch ab (new_DependencyWatcher [''/a.ts''] [])))) = Inr None
   \<and> snd (watch ab (snd (watch ab (new_DependencyWatcher [''/a.ts''] []))))
      = snd (watch ab (new_DependencyWatcher [''/a.ts''] []))"
proof -
  have 1: "state (new_DependencyWatcher [''/a.ts''] []) \<noteq> Closed"
    by (simp add: new_DependencyWatcher_def)
  have 2: "fst (watch ab (new_DependencyWatcher [''/a.ts''] [])) = Inr (Some [''/a.ts'', ''/b.ts''])"
    by (simp add: watcher_eval scan_eval ab_def)
  from C7_second_watch_is_noop[of ab ab "new_DependencyWatcher [''/a.ts''] []"] 1 2
  show ?thesis by simp
qed

subsection \<open>Dispose calls\<close>

lemma log_effect_fields [simp]:
  "fullPaths (log_effect e s) = fullPaths s"
  "scanConfig (log_effect e s) = scanConfig s"
  "watchers (log_effect e s) = watchers s"
  "state (log_effect e s) = state s"
  "closeListeners (log_effect e s) = closeListeners s"
  "buildOnChange (log_effect e s) = buildOnChange s"
  "rescanOnBuild (log_effect e s) = rescanOnBuild s"
  "buildConfig (log_effect e s) = buildConfig s"
  "heap (log_effect e s) = heap s"
  "trace (log_effect e s) = trace s @ [e]"
  by (simp_all add: log_effect_def)

lemma FSWatcher_close_heap:
  "k < length (heap s) \<Longrightarrow>
   closeCalls (heap (FSWatcher_close h s) ! k) = closeCalls (heap s ! k) + count_list [h] k"
  "k < length (heap s) \<Longrightarrow> filename (heap (FSWatcher_close h s) ! k) = filename (heap s ! k)"
  "length (heap (FSWatcher_close h s)) = length (heap s)"
  by (cases "k = h"; simp add: FSWatcher_close_def)+

lemma closeAll_closeCalls:
  "k < length (heap s) \<Longrightarrow>
   closeCalls (heap (foldl (\<lambda>s h. FSWatcher_close h s) s hs) ! k)
     = closeCalls (heap s ! k) + count_list hs k"
proof (induction hs arbitrary: s)
  case Nil
  then show ?case by simp
next
  case (Cons h hs)
  have "k < length (heap (FSWatcher_close h s))"
    using Cons.prems by (simp add: FSWatcher_close_heap(3))
  then have "closeCalls (heap (foldl (\<lambda>s h. FSWatcher_close h s) (FSWatcher_close h s) hs) ! k)
     = closeCalls (heap (FSWatcher_close h s) ! k) + count_list hs k"
    by (rule Cons.IH)
  also have "closeCalls (heap (FSWatcher_close h s) ! k) = closeCalls (heap s ! k) + count_list [h] k"
    using Cons.prems by (rule FSWatcher_close_heap(1))
  finally show ?case by simp
qed

lemma closeAll_filename:
  "k < length (heap s) \<Longrightarrow>
   filename (heap (foldl (\<lambda>s h. FSWatcher_close h s) s hs) ! k) = filename (heap s ! k)"
proof (induction hs arbitrary: s)
  case Nil
  then show ?case by simp
next
  case (Cons h hs)
  then show ?case by (simp add: FSWatcher_close_heap)
qed

lemma closeWatchers_heap:
  "k < length (heap s) \<Longrightarrow>
   closeCalls (heap (closeWatchers s) ! k) = closeCalls (heap s ! k) + count_list (watchers s) k"
  "k < length (heap s) \<Longrightarrow> filename (heap (closeWatchers s) ! k) = filename (heap s ! k)"
  by (simp_all add: closeWatchers_def closeAll_closeCalls closeAll_filename)

lemma closeWatchers_funpow_fields [simp]:
  "watchers ((closeWatchers ^^ n) s) = watchers s"
  "state ((closeWatchers ^^ n) s) = state s"
  "closeListeners ((closeWatchers ^^ n) s) = closeListeners s"
  "length (heap ((closeWatchers ^^ n) s)) = length (heap s)"
  "events_of (trace ((closeWatchers ^^ n) s)) = events_of (trace s)"
  by (induction n) simp_all

lemma closeWatchers_funpow_heap:
  "k < length (heap s) \<Longrightarrow>
   closeCalls (heap ((closeWatchers ^^ n) s) ! k) = closeCalls (heap s ! k) + n * count_list (watchers s) k"
  by (induction n) (simp_all add: closeWatchers_heap)


subsection \<open>A call that fails\<close>



lemma watching_ab_eq:
  "watching_ab = \<lparr>fullPaths = [''/a.ts''], scanConfig = \<lparr>excludeGlobs = []\<rparr>, watchers = [0, 1],
     state = Watching, closeListeners = 1, buildOnWatch = False, buildOnChange = False,
     rescanOnBuild = False, buildConfig = [],
     heap = [\<lparr>filename = ''/a.ts'', closeCalls = 0\<rparr>, \<lparr>filename = ''/b.ts'', closeCalls = 0\<rparr>],
     trace = [FindImports, FsWatch ''/a.ts'' 0, FsWatch ''/b.ts'' 1, Emit (Watch [''/a.ts'', ''/b.ts''])]\<rparr>"
  by (simp add: watching_ab_def watcher_eval scan_eval ab_def)



subsection \<open>Closing\<close>

text \<open>
  Claim C6, as the code has it. On a watcher that is not closed, \<open>close\<close> sets the state
  to \<open>Closed\<close> and emits one \<open>close\<close> event, and a second \<open>close\<close> changes nothing. Every
  handle in \<open>this.watchers\<close> is closed by it: once by \<open>close\<close> itself and once more by
  each close listener that an earlier successful \<open>rescan\<close> registered (a repeated
  \<open>FSWatcher.close\<close> has no further effect). Handles outside \<open>this.watchers\<close> are not
  touched.
\<close>

theorem C6_close_idempotent:
  assumes "state s \<noteq> Closed"
  shows "close (close s) = close s \<and> state (close s) = Closed
     \<and> emitted (close s) = emitted s @ [Close]
     \<and> (\<forall>h < length (heap s).
          closeCalls (heap (close s) ! h)
            = closeCalls (heap s ! h) + (1 + closeListeners s) * count_list (watchers s) h)"
proof -
  have c: "state (close s) = Closed"
    using assms by (simp add: close_def removeAllListeners_def emit_close_def)
  have e: "emitted (close s) = emitted s @ [Close]"
    using assms
    by (simp add: close_def removeAllListeners_def emit_close_def emitted_def events_of_append)
  have h: "closeCalls (heap (close s) ! h)
      = closeCalls (heap s ! h) + (1 + closeListeners s) * count_list (watchers s) h"
    if "h < length (heap s)" for h
    using that assms
    by (simp add: close_def removeAllListeners_def emit_close_def closeWatchers_funpow_heap
        closeWatchers_heap)
  from c e h show ?thesis by (simp add: close_def)
qed

theorem C6_close_idempotent_witness:
  "state watching_ab \<noteq> Closed
   \<and> close (close watching_ab) = close watching_ab
   \<and> emitted (close watching_ab) = [Watch [''/a.ts'', ''/b.ts''], Close]
   \<and> closeCalls (heap (close watching_ab) ! 0) = 2
   \<and> closeCalls (heap (close watching_ab) ! 1) = 2"
proof -
  have 1: "state watching_ab \<noteq> Closed" by (simp add: watching_ab_eq)
  have 2: "emitted watching_ab = [Watch [''/a.ts'', ''/b.ts'']]"
    "length (heap watching_ab) = 2" "closeListeners watching_ab = 1" "watchers watching_ab = [0, 1]"
    "closeCalls (heap watching_ab ! 0) = 0" "closeCalls (heap watching_ab ! 1) = 0"
    by (simp_all add: watching_ab_eq emitted_def)
  from C6_close_idempotent[OF 1] 1 2 show ?thesis by simp
qed

text \<open>
  Claim C6 as stated fails. After one \<open>watch\<close>, two calls of \<open>close\<close> have closed handle
  0 twice. And when a subscription fails after the handle for \<open>/a.ts\<close> was created, that
  handle is in no watch set and no \<open>close\<close> ever closes it.
\<close>

theorem C6_counterexample:
  "closeCalls (heap (close (close (snd (watch ab (new_DependencyWatcher [''/a.ts''] []))))) ! 0) = 2
   \<and> fst (watch ab (new_DependencyWatcher [''/a.ts'', ''/missing.ts''] [])) = Inl (ENOENT ''/missing.ts'')
   \<and> heap (close (close (snd (watch ab (new_DependencyWatcher [''/a.ts'', ''/missing.ts''] [])))))
       = [\<lparr>filename = ''/a.ts'', closeCalls = 0\<rparr>]"
  by (simp add: watcher_eval scan_eval ab_def numeral_2_eq_2)

subsection \<open>Entry paths are not validated\<close>

lemma watchAll_fst:
  "fst (watchAll d (p # ps) s) =
     (if file_exists d p
      then (case fst (watchAll d ps (snd (fs_watch d p s))) of
              Inl e \<Rightarrow> Inl e
            | Inr hs \<Rightarrow> Inr (length (heap s) # hs))
      else Inl (ENOENT p))"
  by (cases "watchAll d ps (snd (fs_watch d p s))")
    (auto simp: fs_watch_def split: sum.splits)

lemma watchAll_missing:
  "\<exists>p \<in> set ps. \<not> file_exists d p \<Longrightarrow>
   \<exists>q \<in> set ps. \<not> file_exists d q \<and> fst (watchAll d ps s) = Inl (ENOENT q)"
proof (induction ps arbitrary: s)
  case Nil
  then show ?case by simp
next
  case (Cons p ps)
  show ?case
  proof (cases "file_exists d p")
    case False
    then show ?thesis by (simp add: fs_watch_def)
  next
    case True
    then have "\<exists>p \<in> set ps. \<not> file_exists d p" using Cons.prems by auto
    from Cons.IH[OF this, of "snd (fs_watch d p s)"] obtain q
      where q: "q \<in> set ps" "\<not> file_exists d q"
        "fst (watchAll d ps (snd (fs_watch d p s))) = Inl (ENOENT q)" by blast
    have "fst (watchAll d (p # ps) s) = Inl (ENOENT q)"
      using True q(3) by (simp add: watchAll_fst del: watchAll.simps(2))
    then show ?thesis using q by auto
  qed
qed

lemma rescan_missing:
  assumes "state s \<noteq> Closed" and "findImports d (scanConfig s) (fullPaths s) = Inr r"
    and "p \<in> set (fullPaths s)" and "\<not> file_exists d p"
  shows "\<exists>q \<in> set r. \<not> file_exists d q \<and> fst (rescan d s) = Inl (ENOENT q)"
proof -
  have "p \<in> set r" using findImports_includes_entries[OF assms(2)] assms(3) by blast
  then have "\<exists>p \<in> set r. \<not> file_exists d p" using assms(4) by blast
  from watchAll_missing[OF this, of "startScan s"] obtain q
    where q: "q \<in> set r" "\<not> file_exists d q" "fst (watchAll d r (startScan s)) = Inl (ENOENT q)"
    by blast
  have "fst (rescan d s) = Inl (ENOENT q)"
    using assms(1,2) q(3)
    by (cases "watchAll d r (startScan s)") (simp add: rescan.simps)
  then show ?thesis using q by blast
qed

text \<open>
  Claim C10. The scan does not validate entry paths. An entry path that does not exist, or
  whose name does not end in \<open>.js\<close>, \<open>.jsx\<close>, \<open>.ts\<close> or \<open>.tsx\<close>, is skipped when the
  frontier is expanded: the scan fails exactly when the scan without that entry fails,
  with the same error, and when it returns, it returns what the scan without that entry
  returns, and that entry. So when no entry path can be scanned the scan returns the entry
  paths, and whenever a scan returns, every entry path is in its result. A missing entry
  path makes the call fail only afterwards, when \<open>rescan\<close> subscribes to the paths of the
  result: \<open>fs.watch\<close> throws for the first path of the result that does not exist.
\<close>

theorem C10_entries_not_validated:
  "(\<forall>p \<in> set paths. \<not> extRegex p \<or> \<not> file_exists d p \<longrightarrow>
       (\<forall>e. findImports d cfg paths = Inl e \<longleftrightarrow> findImports d cfg (removeAll p paths) = Inl e)
     \<and> (\<forall>r. findImports d cfg paths = Inr r \<longrightarrow>
          (\<exists>r'. findImports d cfg (removeAll p paths) = Inr r' \<and> set r = insert p (set r'))))
   \<and> ((\<forall>p \<in> set paths. \<not> extRegex p \<or> \<not> file_exists d p) \<longrightarrow>
       findImports d cfg paths = Inr (new_Set paths))
   \<and> (\<forall>r. findImports d cfg paths = Inr r \<longrightarrow> set paths \<subseteq> set r)
   \<and> (\<forall>s r p. state s \<noteq> Closed \<and> findImports d (scanConfig s) (fullPaths s) = Inr r
          \<and> p \<in> set (fullPaths s) \<and> \<not> file_exists d p \<longrightarrow>
        (\<exists>q \<in> set r. \<not> file_exists d q \<and> fst (rescan d s) = Inl (ENOENT q)))"
proof (intro conjI)
  show "\<forall>p \<in> set paths. \<not> extRegex p \<or> \<not> file_exists d p \<longrightarrow>
       (\<forall>e. findImports d cfg paths = Inl e \<longleftrightarrow> findImports d cfg (removeAll p paths) = Inl e)
     \<and> (\<forall>r. findImports d cfg paths = Inr r \<longrightarrow>
          (\<exists>r'. findImports d cfg (removeAll p paths) = Inr r' \<and> set r = insert p (set r')))"
    using findImports_skips_one[of _ paths d cfg] by blast
  show "(\<forall>p \<in> set paths. \<not> extRegex p \<or> \<not> file_exists d p) \<longrightarrow>
       findImports d cfg paths = Inr (new_Set paths)"
    using findImports_skips_entries[of paths d cfg] by blast
  show "\<forall>r. findImports d cfg paths = Inr r \<longrightarrow> set paths \<subseteq> set r"
    using findImports_includes_entries[of d cfg paths] by blast
  show "\<forall>s r p. state s \<noteq> Closed \<and> findImports d (scanConfig s) (fullPaths s) = Inr r
          \<and> p \<in> set (fullPaths s) \<and> \<not> file_exists d p \<longrightarrow>
        (\<exists>q \<in> set r. \<not> file_exists d q \<and> fst (rescan d s) = Inl (ENOENT q))"
    using rescan_missing[of _ d] by blast
qed

text \<open>
  With \<open>/a.ts\<close> importing \<open>/b.ts\<close>: the entries \<open>/missing.ts\<close> and \<open>/b.css\<close> alone are
  returned as they are; next to the entry \<open>/a.ts\<close>, \<open>/missing.ts\<close> is added to what the scan
  of \<open>/a.ts\<close> returns; and \<open>rescan\<close> fails in \<open>fs.watch\<close>.
\<close>

theorem C10_entries_not_validated_witness:
  "findImports ab no_exclude [''/missing.ts'', ''/b.css''] = Inr [''/missing.ts'', ''/b.css'']
   \<and> findImports ab no_exclude [''/missing.ts'', ''/a.ts''] = Inr [''/missing.ts'', ''/a.ts'', ''/b.ts'']
   \<and> (\<exists>r'. findImports ab no_exclude [''/a.ts''] = Inr r'
         \<and> set [''/missing.ts'', ''/a.ts'', ''/b.ts''] = insert ''/missing.ts'' (set r'))
   \<and> fst (rescan ab (new_DependencyWatcher [''/missing.ts'', ''/b.css''] []))
       = Inl (ENOENT ''/missing.ts'')"
proof -
  have 1: "\<forall>p \<in> set [''/missing.ts'', ''/b.css'']. \<not> extRegex p \<or> \<not> file_exists ab p"
    by (simp add: extRegex_def endsWith_def file_exists_def ab_def)
  have 2: "new_Set [''/missing.ts'', ''/b.css''] = [''/missing.ts'', ''/b.css'']"
    by (simp add: new_Set_def Set_add_def)
  have 3: "fst (rescan ab (new_DependencyWatcher [''/missing.ts'', ''/b.css''] []))
       = Inl (ENOENT ''/missing.ts'')"
    by (simp add: watcher_eval scan_eval ab_def)
  have 4: "findImports ab no_exclude [''/missing.ts'', ''/a.ts''] = Inr [''/missing.ts'', ''/a.ts'', ''/b.ts'']"
    by (simp add: scan_eval ab_def no_exclude_def)
  have 5: "\<not> file_exists ab ''/missing.ts''" by (simp add: file_exists_def ab_def)
  have a: "findImports ab no_exclude [''/missing.ts'', ''/b.css''] = Inr [''/missing.ts'', ''/b.css'']"
    using C10_entries_not_validated[of "[''/missing.ts'', ''/b.css'']" ab no_exclude] 1 2 by simp
  have b: "\<exists>r'. findImports ab no_exclude [''/a.ts''] = Inr r'
         \<and> set [''/missing.ts'', ''/a.ts'', ''/b.ts''] = insert ''/missing.ts'' (set r')"
    using C10_entries_not_validated[of "[''/missing.ts'', ''/a.ts'']" ab no_exclude] 4 5 by simp
  from a b 3 4 show ?thesis by simp
qed

subsection \<open>Rescanning\<close>

lemma watch_events_of_append:
  "watch_events_of (xs @ ys) = watch_events_of xs @ watch_events_of ys"
  by (induction xs rule: watch_events_of.induct) simp_all

lemma findImports_loop_distinct:
  "findImports_loop d cfg allPaths foundPaths = Inr r \<Longrightarrow> distinct r"
proof (induction d cfg allPaths foundPaths rule: findImports_loop.induct)
  case (1 d cfg allPaths foundPaths)
  show ?case
  proof (cases "foundPaths = []")
    case True
    then show ?thesis using "1.prems" by (auto simp: findImports_loop.simps distinct_new_Set)
  next
    case ne: False
    then obtain allPaths' foundPaths' where m: "mergePaths allPaths foundPaths = Inr allPaths'"
      and f: "findImportsOnce d cfg (new_Set (flatValues foundPaths)) = Inr foundPaths'"
      and l: "findImports_loop d cfg allPaths' foundPaths' = Inr r"
      using "1.prems" by (auto simp: findImports_loop.simps[of _ _ allPaths foundPaths] split: sum.splits)
    show ?thesis using "1.IH"[OF ne m f l] .
  qed
qed

lemma findImports_distinct: "findImports d cfg paths = Inr r \<Longrightarrow> distinct r"
  unfolding findImports_def by (rule findImports_loop_distinct)

lemma emit_watch_plain:
  assumes "\<not> rescanOnBuild s"
  shows "emit_watch d paths s =
     s\<lparr>buildOnWatch := False,
       trace := trace s @ Emit (Watch paths) #
         (if buildOnWatch s
          then [BunBuild (bunBuild d (buildConfig s)), Emit (Build (bunBuild d (buildConfig s)))]
          else [])\<rparr>"
  using assms
  by (cases "buildOnWatch s")
    (simp_all add: emit_watch.simps buildListener.simps emit_build.simps log_effect_def)

lemma watchAll_success:
  "watchAll d ps s = (Inr hs, s') \<Longrightarrow>
   hs = [length (heap s)..<length (heap s) + length ps]
   \<and> heap s' = heap s @ map (\<lambda>p. \<lparr>filename = p, closeCalls = 0\<rparr>) ps"
proof (induction ps arbitrary: s hs s')
  case Nil
  then show ?case by simp
next
  case (Cons p ps)
  from Cons.prems have ex: "file_exists d p"
    by (auto simp: fs_watch_def split: if_splits)
  define s1 where "s1 = snd (fs_watch d p s)"
  have h1: "heap s1 = heap s @ [\<lparr>filename = p, closeCalls = 0\<rparr>]"
    using ex by (simp add: s1_def fs_watch_def)
  obtain r2 s2 where w: "watchAll d ps s1 = (r2, s2)" by (cases "watchAll d ps s1")
  with Cons.prems ex obtain hs2 where r2: "r2 = Inr hs2" and hs: "hs = length (heap s) # hs2"
    and s': "s' = s2"
    by (cases r2) (auto simp: fs_watch_def s1_def)
  from Cons.IH[OF w[unfolded r2]] have "hs2 = [length (heap s1)..<length (heap s1) + length ps]"
    and "heap s2 = heap s1 @ map (\<lambda>p. \<lparr>filename = p, closeCalls = 0\<rparr>) ps" by simp_all
  moreover have "[length (heap s)..<length (heap s) + length (p # ps)]
      = length (heap s) # [length (heap s1)..<length (heap s1) + length ps]"
    by (simp add: h1 upt_conv_Cons del: upt_Suc)
  ultimately show ?case using hs s' h1 by simp
qed

lemma active_of_append:
  assumes "\<forall>h < length xs. closeCalls (xs ! h) \<noteq> 0"
  shows "filter (\<lambda>h. closeCalls ((xs @ map (\<lambda>p. \<lparr>filename = p, closeCalls = 0\<rparr>) ps) ! h) = 0)
           [0..<length xs + length ps] = [length xs..<length xs + length ps]"
proof -
  let ?P = "\<lambda>h. closeCalls ((xs @ map (\<lambda>p. \<lparr>filename = p, closeCalls = 0\<rparr>) ps) ! h) = 0"
  have "\<And>h. h \<in> set [0..<length xs] \<Longrightarrow> \<not> ?P h"
    using assms by (simp add: nth_append)
  then have a: "filter ?P [0..<length xs] = []"
    by (simp only: filter_empty_conv) blast
  have "?P h" if "h \<in> set [length xs..<length xs + length ps]" for h
  proof -
    have "length xs \<le> h" and "h < length xs + length ps" using that by simp_all
    then have "\<not> h < length xs" and "h - length xs < length ps" by arith+
    then show ?thesis by (simp add: nth_append)
  qed
  then have b: "filter ?P [length xs..<length xs + length ps] = [length xs..<length xs + length ps]"
    by (rule filter_True[OF ballI])
  have "[0..<length xs + length ps] = [0..<length xs] @ [length xs..<length xs + length ps]"
    by (rule upt_add_eq_append) simp
  then have "filter ?P [0..<length xs + length ps]
      = filter ?P [0..<length xs] @ filter ?P [length xs..<length xs + length ps]"
    by (simp only: filter_append)
  then show ?thesis by (simp only: a b append_Nil)
qed

lemma paths_of_append:
  "map (\<lambda>h. filename ((xs @ map (\<lambda>p. \<lparr>filename = p, closeCalls = 0\<rparr>) ps) ! h))
     [length xs..<length xs + length ps] = ps"
  by (rule nth_equalityI) (simp_all add: nth_append)

lemma startScan_closes_all:
  assumes "set (active s) \<subseteq> set (watchers s)" and "h < length (heap s)"
  shows "closeCalls (heap (startScan s) ! h) \<noteq> 0"
proof (cases "closeCalls (heap s ! h) = 0")
  case True
  then have "h \<in> set (active s)" using assms(2) by (simp add: active_def)
  then have "count_list (watchers s) h \<noteq> 0" using assms(1) by (auto simp: count_list_0_iff)
  then show ?thesis using assms(2) by (simp add: startScan_def closeWatchers_heap)
next
  case False
  then show ?thesis using assms(2) by (simp add: startScan_def closeWatchers_heap)
qed

lemma rescan_success:
  assumes nr: "\<not> rescanOnBuild s" and inv: "set (active s) \<subseteq> set (watchers s)"
    and r: "rescan d s = (Inr paths, s')"
  shows "findImports d (scanConfig s) (fullPaths s) = Inr paths"
    and "watch_events s' = watch_events s @ [paths]"
    and "active s' = watchers s'"
    and "active_paths s' = paths"
    and "\<forall>h < length (heap s). closeCalls (heap s' ! h) \<noteq> 0"
    and "scanConfig s' = scanConfig s \<and> fullPaths s' = fullPaths s \<and> \<not> rescanOnBuild s'"
proof -
  have nc: "state s \<noteq> Closed" using r by (auto simp: rescan.simps)
  show f: "findImports d (scanConfig s) (fullPaths s) = Inr paths"
    using r nc by (auto simp: rescan.simps split: sum.splits prod.splits)
  obtain r1 s1 where w: "watchAll d paths (startScan s) = (r1, s1)"
    by (cases "watchAll d paths (startScan s)")
  with r nc f obtain hs where r1: "r1 = Inr hs"
    and s': "s' = emit_watch d paths (s1\<lparr>watchers := hs, closeListeners := Suc (closeListeners s1)\<rparr>)"
    by (cases r1) (auto simp: rescan.simps)
  have s1: "s1 = snd (watchAll d paths (startScan s))" using w by simp
  have nr1: "\<not> rescanOnBuild (s1\<lparr>watchers := hs, closeListeners := Suc (closeListeners s1)\<rparr>)"
    using nr by (simp add: s1)
  note ew = emit_watch_plain[OF nr1, of d paths, folded s']
  from watchAll_success[OF w[unfolded r1]]
  have hs: "hs = [length (heap (startScan s))..<length (heap (startScan s)) + length paths]"
    and h1: "heap s1 = heap (startScan s) @ map (\<lambda>p. \<lparr>filename = p, closeCalls = 0\<rparr>) paths"
    by simp_all
  have closed: "\<forall>h < length (heap (startScan s)). closeCalls (heap (startScan s) ! h) \<noteq> 0"
    using startScan_closes_all[OF inv] by simp
  have hp: "heap s' = heap s1" and ws: "watchers s' = hs" by (simp_all add: ew)
  show "watch_events s' = watch_events s @ [paths]"
    by (simp add: ew watch_events_def emitted_def events_of_append watch_events_of_append s1)
  show a: "active s' = watchers s'"
    unfolding active_def hp ws h1 using active_of_append[OF closed, of paths] hs by simp
  show "active_paths s' = paths"
    unfolding active_paths_def a ws unfolding hp h1 hs by (rule paths_of_append)
  show "\<forall>h < length (heap s). closeCalls (heap s' ! h) \<noteq> 0"
    using closed by (simp add: hp h1 nth_append)
  show "scanConfig s' = scanConfig s \<and> fullPaths s' = fullPaths s \<and> \<not> rescanOnBuild s'"
    using nr by (simp add: ew s1)
qed

lemma moments_nonempty [simp]: "moments hs es \<noteq> []"
  by (cases es) simp_all

lemma hd_in_moments: "hs \<in> set (moments hs es)"
  by (cases es) simp_all


lemma set_moments_append:
  "set (moments hs (xs @ ys)) = set (moments hs xs) \<union> set (moments (last (moments hs xs)) ys)"
  by (induction xs arbitrary: hs) (auto simp: hd_in_moments)

lemma zip_moments_append:
  "set (zip (moments hs (xs @ ys)) (xs @ ys))
     = set (zip (moments hs xs) xs) \<union> set (zip (moments (last (moments hs xs)) ys) ys)"
  by (induction xs arbitrary: hs) auto





















text \<open>
  The watchers in which every open handle is in \<open>this.watchers\<close> and no two open handles
  watch the same path: the new ones, and, without the rescan-after-build listener, those
  that any call leaves behind, except a \<open>rescan\<close> or \<open>watch\<close> that failed in \<open>fs.watch\<close>.
\<close>

lemma watch_snd: "snd (watch d s) = (if state s = Watching then s else snd (rescan d s))"
  by (cases "rescan d s") (auto simp: watch_def split: sum.splits)

lemma all_closed_one_handle:
  "\<forall>h < length (heap s). closeCalls (heap s ! h) \<noteq> 0 \<Longrightarrow> one_handle_per_file s"
proof -
  assume a: "\<forall>h < length (heap s). closeCalls (heap s ! h) \<noteq> 0"
  have "active s = []" unfolding active_def using a by (simp add: filter_empty_conv)
  then show ?thesis by (simp add: one_handle_per_file_def active_paths_def)
qed

lemma length_heap_startScan: "length (heap (startScan s)) = length (heap s)"
  using closeWatchers_funpow_fields(4)[of 1 s] by (simp add: startScan_def)

lemma watchAll_error: "fst (watchAll d ps s) = Inl e \<Longrightarrow> \<exists>p. e = ENOENT p"
proof (induction ps arbitrary: s)
  case Nil
  then show ?case by simp
next
  case (Cons p ps)
  then show ?case
    by (auto simp: watchAll_fst simp del: watchAll.simps(2) split: if_splits sum.splits)
qed

lemma new_watcher_one_handle:
  "one_handle_per_file (new_DependencyWatcher paths exclude)"
  "one_handle_per_file (new_BuildWatcher entrypoints rescanOpt exclude)"
  by (simp_all add: one_handle_per_file_def active_def active_paths_def new_DependencyWatcher_def
      new_BuildWatcher_def)

lemma rescan_keeps_one_handle:
  assumes nr: "\<not> rescanOnBuild s" and one: "one_handle_per_file s"
    and ok: "\<forall>p. fst (rescan d s) \<noteq> Inl (ENOENT p)"
  shows "one_handle_per_file (snd (rescan d s)) \<and> \<not> rescanOnBuild (snd (rescan d s))"
proof (cases "state s = Closed")
  case True
  then show ?thesis using nr one by (simp add: rescan.simps)
next
  case nc: False
  have inv: "set (active s) \<subseteq> set (watchers s)"
    using one by (simp add: one_handle_per_file_def)
  show ?thesis
  proof (cases "findImports d (scanConfig s) (fullPaths s)")
    case (Inl err)
    then have r: "snd (rescan d s) = startScan s" using nc by (simp add: rescan.simps)
    have "\<forall>h < length (heap (startScan s)). closeCalls (heap (startScan s) ! h) \<noteq> 0"
      using startScan_closes_all[OF inv] by (simp add: length_heap_startScan)
    then have "one_handle_per_file (startScan s)" by (rule all_closed_one_handle)
    then show ?thesis using nr by (simp add: r)
  next
    case (Inr paths)
    obtain r1 s1 where w: "watchAll d paths (startScan s) = (r1, s1)"
      by (cases "watchAll d paths (startScan s)")
    show ?thesis
    proof (cases r1)
      case (Inl e)
      then have "fst (rescan d s) = Inl e" using nc Inr w by (simp add: rescan.simps)
      moreover have "\<exists>p. e = ENOENT p" using watchAll_error[of d paths "startScan s" e] w Inl by simp
      ultimately show ?thesis using ok by blast
    next
      case hs: (Inr hs)
      obtain s' where r: "rescan d s = (Inr paths, s')"
        using nc Inr w hs by (simp add: rescan.simps)
      note rs = rescan_success[OF nr inv r]
      have "one_handle_per_file s'"
        using rs(3,4) findImports_distinct[OF rs(1)] by (simp add: one_handle_per_file_def)
      then show ?thesis using rs(6) r by simp
    qed
  qed
qed

lemma watch_keeps_one_handle:
  assumes "\<not> rescanOnBuild s" and "one_handle_per_file s"
    and "\<forall>p. fst (watch d s) \<noteq> Inl (ENOENT p)"
  shows "one_handle_per_file (snd (watch d s)) \<and> \<not> rescanOnBuild (snd (watch d s))"
proof (cases "state s = Watching")
  case True
  then show ?thesis using assms by (simp add: watch_def)
next
  case False
  then have "fst (watch d s) = (case fst (rescan d s) of Inl e \<Rightarrow> Inl e | Inr paths \<Rightarrow> Inr (Some paths))"
    by (simp add: watch_def split: prod.splits sum.splits)
  then have "\<forall>p. fst (rescan d s) \<noteq> Inl (ENOENT p)" using assms(3) by (auto split: sum.splits)
  from rescan_keeps_one_handle[OF assms(1,2) this] show ?thesis
    using False by (simp add: watch_snd)
qed

lemma close_keeps_one_handle:
  assumes "\<not> rescanOnBuild s" and "one_handle_per_file s"
  shows "one_handle_per_file (close s) \<and> \<not> rescanOnBuild (close s)"
proof (cases "state s = Closed")
  case True
  then show ?thesis using assms by (simp add: close_def)
next
  case False
  have inv: "set (active s) \<subseteq> set (watchers s)"
    using assms(2) by (simp add: one_handle_per_file_def)
  have len: "length (heap (close s)) = length (heap s)"
    using False by (simp add: close_def removeAllListeners_def emit_close_def)
  have "closeCalls (heap (close s) ! h) \<noteq> 0" if h: "h < length (heap s)" for h
  proof (cases "closeCalls (heap s ! h) = 0")
    case True
    then have "h \<in> set (active s)" using h by (simp add: active_def)
    then have "count_list (watchers s) h \<noteq> 0" using inv by (auto simp: count_list_0_iff)
    then show ?thesis using h False
      by (simp add: close_def removeAllListeners_def emit_close_def closeWatchers_funpow_heap
          closeWatchers_heap)
  next
    case nz: False
    then show ?thesis using h False
      by (simp add: close_def removeAllListeners_def emit_close_def closeWatchers_funpow_heap
          closeWatchers_heap)
  qed
  then have "one_handle_per_file (close s)" by (intro all_closed_one_handle) (simp add: len)
  then show ?thesis using False by (simp add: close_def removeAllListeners_def)
qed

lemma notify_keeps_one_handle:
  assumes "\<not> rescanOnBuild s" and "one_handle_per_file s"
  shows "one_handle_per_file (fs_notify d h event name s)
     \<and> \<not> rescanOnBuild (fs_notify d h event name s)"
  using assms
  by (simp add: fs_notify_def emitFileChanges_def buildListener.simps emit_build.simps
      one_handle_per_file_def active_def active_paths_def)

lemma perform_keeps_one_handle:
  assumes "\<not> rescanOnBuild s" and "one_handle_per_file s"
    and "c = CallRescan \<longrightarrow> (\<forall>p. fst (rescan d s) \<noteq> Inl (ENOENT p))"
    and "c = CallWatch \<longrightarrow> (\<forall>p. fst (watch d s) \<noteq> Inl (ENOENT p))"
  shows "one_handle_per_file (perform d c s) \<and> \<not> rescanOnBuild (perform d c s)"
proof (cases c)
  case CallWatch
  then show ?thesis using watch_keeps_one_handle[OF assms(1,2)] assms(4) by simp
next
  case CallRescan
  then show ?thesis using rescan_keeps_one_handle[OF assms(1,2)] assms(3) by simp
next
  case CallClose
  then show ?thesis using close_keeps_one_handle[OF assms(1,2)] by simp
next
  case (Notify h event name)
  then show ?thesis using notify_keeps_one_handle[OF assms(1,2)] by simp
qed





subsection \<open>Builds\<close>




























end
